theory Spec2Isabelle
  imports Main
begin

section \<open>Data model of lab3: the maze grid\<close>

text \<open>
  The class \<open>Maze\<close> of \<open>lab3_version3.py\<close> holds \<open>width\<close>, \<open>height\<close>, the
  grid \<open>maze\<close> (a list of rows of Python integers), \<open>start_pos\<close> and \<open>end_pos\<close>.
  Cell values: \<open>-1\<close> wall, \<open>0\<close> passage, \<open>2\<close> visited by the search, \<open>3\<close> on the
  solution path. Positions are pairs \<open>(row, column)\<close>.
\<close>

type_synonym pos = "int \<times> int"
type_synonym grid = "int list list"

datatype error = IndexError

record Maze =
  width :: int
  height :: int
  maze :: grid
  start_pos :: pos
  end_pos :: pos

abbreviation (input) Wall :: int where "Wall \<equiv> - 1"
abbreviation (input) Passage :: int where "Passage \<equiv> 0"
abbreviation (input) Visited :: int where "Visited \<equiv> 2"
abbreviation (input) OnPath :: int where "OnPath \<equiv> 3"

text \<open>
  Python list indexing \<open>xs[i]\<close>: an index in \<open>[0, len)\<close> is used as it is, an index in
  \<open>[-len, 0)\<close> counts from the end, anything else raises \<open>IndexError\<close> (here
  \<open>None\<close>).
\<close>

definition py_index :: "int \<Rightarrow> nat \<Rightarrow> nat option" where
  "py_index i n =
     (if 0 \<le> i \<and> i < int n then Some (nat i)
      else if i < 0 \<and> - int n \<le> i then Some (nat (int n + i))
      else None)"

text \<open>\<open>self.maze[x][y]\<close> as a read and \<open>self.maze[x][y] = v\<close> as a write.\<close>

definition grid_get :: "grid \<Rightarrow> int \<Rightarrow> int \<Rightarrow> error + int" where
  "grid_get g x y =
     (case py_index x (length g) of
        None \<Rightarrow> Inl IndexError
      | Some i \<Rightarrow>
          (case py_index y (length (g ! i)) of
             None \<Rightarrow> Inl IndexError
           | Some j \<Rightarrow> Inr (g ! i ! j)))"

definition grid_set :: "grid \<Rightarrow> int \<Rightarrow> int \<Rightarrow> int \<Rightarrow> error + grid" where
  "grid_set g x y v =
     (case py_index x (length g) of
        None \<Rightarrow> Inl IndexError
      | Some i \<Rightarrow>
          (case py_index y (length (g ! i)) of
             None \<Rightarrow> Inl IndexError
           | Some j \<Rightarrow> Inr (g[i := (g ! i)[j := v]])))"

text \<open>
  \<open>Maze.__init__\<close>: no check of the dimensions; \<open>range(n)\<close> is empty for \<open>n \<le> 0\<close>.
\<close>

definition Maze_init :: "int \<Rightarrow> int \<Rightarrow> Maze" where
  "Maze_init w h =
     \<lparr> width = w, height = h,
       maze = replicate (nat h) (replicate (nat w) Wall),
       start_pos = (0, 0),
       end_pos = (h - 1, w - 1) \<rparr>"

section \<open>The solver: \<open>Maze.solve_sequential\<close>\<close>

text \<open>
  The dictionary \<open>visited\<close> maps a discovered position to its predecessor; the
  entrance is mapped to Python's \<open>None\<close>. A key that is absent is \<open>None\<close> of the
  outer option, the value \<open>None\<close> of Python is \<open>Some None\<close>.
\<close>

type_synonym visited = "pos \<Rightarrow> pos option option"

definition dict_get :: "visited \<Rightarrow> pos \<Rightarrow> pos option" where
  "dict_get vis p = (case vis p of None \<Rightarrow> None | Some v \<Rightarrow> v)"

definition directions4 :: "(int \<times> int) list" where
  "directions4 = [(0, 1), (1, 0), (0, - 1), (- 1, 0)]"

text \<open>
  The inner \<open>for dx, dy in directions\<close> loop of the search, for the dequeued position
  \<open>cur\<close>: a neighbour inside the bounds whose cell is \<open>0\<close> and that is not yet a key of
  \<open>visited\<close> is appended to the queue, recorded with predecessor \<open>cur\<close> and marked \<open>2\<close>.
\<close>

fun explore ::
  "int \<Rightarrow> int \<Rightarrow> pos \<Rightarrow> (int \<times> int) list \<Rightarrow> pos list \<Rightarrow> visited \<Rightarrow> grid
    \<Rightarrow> error + (pos list \<times> visited \<times> grid)" where
  "explore w h cur [] queue vis g = Inr (queue, vis, g)"
| "explore w h cur ((dx, dy) # ds) queue vis g =
     (let nx = fst cur + dx; ny = snd cur + dy in
      if 0 \<le> nx \<and> nx < h \<and> 0 \<le> ny \<and> ny < w then
        (case grid_get g nx ny of
           Inl e \<Rightarrow> Inl e
         | Inr v \<Rightarrow>
             if v = Passage \<and> vis (nx, ny) = None then
               (case grid_set g nx ny Visited of
                  Inl e \<Rightarrow> Inl e
                | Inr g' \<Rightarrow>
                    explore w h cur ds (queue @ [(nx, ny)]) (vis((nx, ny) \<mapsto> Some cur)) g')
             else explore w h cur ds queue vis g)
      else explore w h cur ds queue vis g)"

text \<open>The set of stored positions of a grid that hold the value \<open>v\<close>.\<close>

definition cells_with :: "int \<Rightarrow> grid \<Rightarrow> (nat \<times> nat) set" where
  "cells_with v g = {(i, j). i < length g \<and> j < length (g ! i) \<and> g ! i ! j = v}"

lemma finite_cells_with: "finite (cells_with v g)"
proof -
  have "cells_with v g \<subseteq> (SIGMA i:{..<length g}. {..<length (g ! i)})"
    by (auto simp: cells_with_def)
  moreover have "finite (SIGMA i:{..<length g}. {..<length (g ! i)})"
    by (intro finite_SigmaI) auto
  ultimately show ?thesis by (rule finite_subset)
qed

lemma py_index_less: "py_index i n = Some k \<Longrightarrow> k < n"
  by (auto simp: py_index_def split: if_splits)

lemma nth_grid_update:
  assumes "i < length g" "j < length (g ! i)"
  shows "a < length (g[i := (g ! i)[j := v]]) \<longleftrightarrow> a < length g"
    and "a < length g \<Longrightarrow> length (g[i := (g ! i)[j := v]] ! a) = length (g ! a)"
    and "a < length g \<Longrightarrow> b < length (g ! a) \<Longrightarrow>
          g[i := (g ! i)[j := v]] ! a ! b = (if a = i \<and> b = j then v else g ! a ! b)"
  using assms by (auto simp: nth_list_update)

lemma cells_with_update:
  assumes "i < length g" "j < length (g ! i)" "v \<noteq> u"
  shows "cells_with u (g[i := (g ! i)[j := v]]) = cells_with u g - {(i, j)}"
  using assms by (auto simp: cells_with_def nth_list_update split: if_splits)

lemma grid_set_cells_with:
  assumes "grid_set g x y v = Inr g'" "v \<noteq> u"
  shows "\<exists>c. cells_with u g' = cells_with u g - {c}"
proof -
  from assms(1) obtain i j where ij: "py_index x (length g) = Some i"
    "py_index y (length (g ! i)) = Some j" "g' = g[i := (g ! i)[j := v]]"
    by (auto simp: grid_set_def split: option.splits)
  then have "i < length g" "j < length (g ! i)"
    by (auto dest: py_index_less)
  from cells_with_update[OF this assms(2)] ij(3) show ?thesis by blast
qed

lemma grid_get_set_cells_with:
  assumes "grid_get g x y = Inr u" "grid_set g x y v = Inr g'" "v \<noteq> u"
  shows "\<exists>c \<in> cells_with u g. cells_with u g' = cells_with u g - {c}"
proof -
  from assms(1) obtain i j where ij: "py_index x (length g) = Some i"
    "py_index y (length (g ! i)) = Some j" "g ! i ! j = u"
    by (auto simp: grid_get_def split: option.splits)
  then have lt: "i < length g" "j < length (g ! i)"
    by (auto dest: py_index_less)
  with ij have "(i, j) \<in> cells_with u g"
    by (simp add: cells_with_def)
  moreover from assms(2) ij have "g' = g[i := (g ! i)[j := v]]"
    by (simp add: grid_set_def)
  ultimately show ?thesis
    using cells_with_update[OF lt assms(3)] by blast
qed

lemma explore_measure:
  "explore w h cur ds queue vis g = Inr (queue', vis', g') \<Longrightarrow>
     2 * card (cells_with Passage g') + length queue'
       \<le> 2 * card (cells_with Passage g) + length queue"
proof (induction ds arbitrary: queue vis g)
  case Nil
  then show ?case by simp
next
  case (Cons d ds)
  obtain dx dy where d: "d = (dx, dy)" by (cases d)
  let ?nx = "fst cur + dx" and ?ny = "snd cur + dy"
  show ?case
  proof (cases "0 \<le> ?nx \<and> ?nx < h \<and> 0 \<le> ?ny \<and> ?ny < w \<and> grid_get g ?nx ?ny = Inr Passage
                  \<and> vis (?nx, ?ny) = None")
    case True
    with Cons.prems d obtain g1 where g1: "grid_set g ?nx ?ny Visited = Inr g1"
      and rest: "explore w h cur ds (queue @ [(?nx, ?ny)]) (vis((?nx, ?ny) \<mapsto> Some cur)) g1
                  = Inr (queue', vis', g')"
      by (auto simp: Let_def split: sum.splits)
    from True g1 obtain c where c: "c \<in> cells_with Passage g"
      "cells_with Passage g1 = cells_with Passage g - {c}"
      using grid_get_set_cells_with[of g ?nx ?ny Passage Visited g1] by auto
    then have "Suc (card (cells_with Passage g1)) = card (cells_with Passage g)"
      using card_Suc_Diff1[OF finite_cells_with[of Passage g], of c] by simp
    with Cons.IH[OF rest] show ?thesis by simp
  next
    case False
    with Cons.prems d have "explore w h cur ds queue vis g = Inr (queue', vis', g')"
      by (auto simp: Let_def split: sum.splits if_splits)
    from Cons.IH[OF this] show ?thesis .
  qed
qed

text \<open>
  The \<open>while queue\<close> loop: \<open>queue.pop(0)\<close>, \<open>break\<close> when the exit is dequeued,
  otherwise explore the four neighbours.
\<close>

function bfs_loop ::
  "int \<Rightarrow> int \<Rightarrow> pos \<Rightarrow> pos list \<Rightarrow> visited \<Rightarrow> grid \<Rightarrow> error + (visited \<times> grid)" where
  "bfs_loop w h e [] vis g = Inr (vis, g)"
| "bfs_loop w h e (cur # queue) vis g =
     (if cur = e then Inr (vis, g)
      else
        (case explore w h cur directions4 queue vis g of
           Inl err \<Rightarrow> Inl err
         | Inr (queue', vis', g') \<Rightarrow> bfs_loop w h e queue' vis' g'))"
  by pat_completeness auto
termination
proof (relation "measure (\<lambda>(w, h, e, queue, vis, g).
         2 * card (cells_with Passage g) + length queue)", goal_cases)
  case 1
  show ?case by simp
next
  case (2 w h e cur queue vis g x2 queue' y vis' g')
  then show ?case
    using explore_measure[of w h cur directions4 queue vis g queue' vis' g'] by auto
qed

text \<open>
  Path reconstruction: \<open>while current: path.append(current); current =
  visited.get(current)\<close>. A position is a non-empty tuple and so always true in
  Python; the loop ends only when \<open>current\<close> is \<open>None\<close>. On a dictionary with a cycle
  of predecessors the loop does not end: not returning is the value \<open>None\<close>.
\<close>

partial_function (option) reconstruct ::
  "visited \<Rightarrow> pos option \<Rightarrow> pos list \<Rightarrow> pos list option" where
  "reconstruct vis current path =
     (case current of
        None \<Rightarrow> Some path
      | Some c \<Rightarrow> reconstruct vis (dict_get vis c) (path @ [c]))"

text \<open>The marking loop \<open>for x, y in path\<close>: every position but the two ends gets \<open>3\<close>.\<close>

fun mark_path :: "pos \<Rightarrow> pos \<Rightarrow> pos list \<Rightarrow> grid \<Rightarrow> error + grid" where
  "mark_path s e [] g = Inr g"
| "mark_path s e ((x, y) # ps) g =
     (if (x, y) \<noteq> s \<and> (x, y) \<noteq> e then
        (case grid_set g x y OnPath of
           Inl err \<Rightarrow> Inl err
         | Inr g' \<Rightarrow> mark_path s e ps g')
      else mark_path s e ps g)"

text \<open>
  \<open>solve_sequential\<close> returns the reversed path and leaves the marks in the grid.
  The result is \<open>None\<close> if the call does not return, \<open>Some (Inl IndexError)\<close> if it
  raises, and \<open>Some (Inr (path, maze))\<close> with the mutated object otherwise.
\<close>

definition solve_sequential :: "Maze \<Rightarrow> (error + (pos list \<times> Maze)) option" where
  "solve_sequential m =
     (case bfs_loop (width m) (height m) (end_pos m) [start_pos m]
             [start_pos m \<mapsto> None] (maze m) of
        Inl err \<Rightarrow> Some (Inl err)
      | Inr (vis, g) \<Rightarrow>
          (case reconstruct vis (Some (end_pos m)) [] of
             None \<Rightarrow> None
           | Some path \<Rightarrow>
               (case mark_path (start_pos m) (end_pos m) path g of
                  Inl err \<Rightarrow> Some (Inl err)
                | Inr g' \<Rightarrow> Some (Inr (rev path, m\<lparr>maze := g'\<rparr>)))))"

section \<open>The generator: \<open>Maze.generate_maze\<close>\<close>

text \<open>
  The random source is a parameter: \<open>rng k\<close> is its \<open>k\<close>-th raw draw.
  \<open>random.shuffle(x)\<close> is the library's in-place Fisher-Yates loop
  \<open>for i in reversed(range(1, len(x))): j = randbelow(i + 1); x[i], x[j] = x[j], x[i]\<close>,
  with \<open>randbelow(n)\<close> the next draw reduced below \<open>n\<close>. The draw counter is
  returned with the shuffled list.
\<close>

type_synonym rand = "nat \<Rightarrow> nat"

fun shuffle_from :: "rand \<Rightarrow> nat \<Rightarrow> nat \<Rightarrow> 'a list \<Rightarrow> 'a list \<times> nat" where
  "shuffle_from rng k 0 xs = (xs, k)"
| "shuffle_from rng k (Suc i) xs =
     (let j = rng k mod (Suc (Suc i)) in
      shuffle_from rng (Suc k) i (xs[Suc i := xs ! j, j := xs ! Suc i]))"

definition shuffle :: "rand \<Rightarrow> nat \<Rightarrow> 'a list \<Rightarrow> 'a list \<times> nat" where
  "shuffle rng k xs = shuffle_from rng k (length xs - 1) xs"

definition py_range :: "int \<Rightarrow> int list" where
  "py_range n = map int [0..<nat n]"

text \<open>The two nested loops that reset every cell to \<open>-1\<close>.\<close>

fun reset_row :: "grid \<Rightarrow> int \<Rightarrow> int list \<Rightarrow> error + grid" where
  "reset_row g i [] = Inr g"
| "reset_row g i (j # js) =
     (case grid_set g i j Wall of
        Inl e \<Rightarrow> Inl e
      | Inr g' \<Rightarrow> reset_row g' i js)"

fun reset_grid :: "grid \<Rightarrow> int list \<Rightarrow> int list \<Rightarrow> error + grid" where
  "reset_grid g [] cols = Inr g"
| "reset_grid g (i # rows) cols =
     (case reset_row g i cols of
        Inl e \<Rightarrow> Inl e
      | Inr g' \<Rightarrow> reset_grid g' rows cols)"

text \<open>
  The inner \<open>for dx, dy in directions\<close> loop of the carving: a lattice neighbour two
  cells away that lies strictly inside the border and is still \<open>-1\<close> is appended to
  \<open>neighbors\<close> together with the offset \<open>(dx // 2, dy // 2)\<close> of the wall in between.
\<close>

fun find_neighbors ::
  "int \<Rightarrow> int \<Rightarrow> pos \<Rightarrow> (int \<times> int) list \<Rightarrow> grid \<Rightarrow> (int \<times> int \<times> int \<times> int) list
    \<Rightarrow> error + (int \<times> int \<times> int \<times> int) list" where
  "find_neighbors w h cur [] g neighbors = Inr neighbors"
| "find_neighbors w h cur ((dx, dy) # ds) g neighbors =
     (let nx = fst cur + dx; ny = snd cur + dy in
      if 0 < nx \<and> nx < h - 1 \<and> 0 < ny \<and> ny < w - 1 then
        (case grid_get g nx ny of
           Inl e \<Rightarrow> Inl e
         | Inr v \<Rightarrow>
             if v = Wall then
               find_neighbors w h cur ds g (neighbors @ [(nx, ny, dx div 2, dy div 2)])
             else find_neighbors w h cur ds g neighbors)
      else find_neighbors w h cur ds g neighbors)"

text \<open>
  The state of the carving loop: the draw counter of the random source, the list
  \<open>directions\<close> (shuffled in place, so it persists from one iteration to the next),
  the grid and the stack (its top is the last element, as \<open>stack[-1]\<close>).
\<close>

type_synonym gen_state = "nat \<times> (int \<times> int) list \<times> grid \<times> pos list"

text \<open>One iteration of \<open>while stack\<close>, for a non-empty stack.\<close>

definition carve_step :: "rand \<Rightarrow> int \<Rightarrow> int \<Rightarrow> gen_state \<Rightarrow> error + gen_state" where
  "carve_step rng w h s =
     (case s of (k, dirs, g, stack) \<Rightarrow>
       (let cur = last stack;
            (dirs', k') = shuffle rng k dirs in
        case find_neighbors w h cur dirs' g [] of
          Inl e \<Rightarrow> Inl e
        | Inr [] \<Rightarrow> Inr (k', dirs', g, butlast stack)
        | Inr ((next_x, next_y, wall_x, wall_y) # _) \<Rightarrow>
            (case grid_set g (fst cur + wall_x) (snd cur + wall_y) Passage of
               Inl e \<Rightarrow> Inl e
             | Inr g1 \<Rightarrow>
                 (case grid_set g1 next_x next_y Passage of
                    Inl e \<Rightarrow> Inl e
                  | Inr g2 \<Rightarrow> Inr (k', dirs', g2, stack @ [(next_x, next_y)])))))"

lemma find_neighbors_wall:
  "find_neighbors w h cur ds g acc = Inr ns \<Longrightarrow> n \<in> set ns \<Longrightarrow>
     n \<in> set acc \<or> grid_get g (fst n) (fst (snd n)) = Inr Wall"
proof (induction ds arbitrary: acc)
  case Nil
  then show ?case by simp
next
  case (Cons d ds)
  obtain dx dy where d: "d = (dx, dy)" by (cases d)
  from Cons.prems d obtain acc' where
    step: "find_neighbors w h cur ds g acc' = Inr ns"
    and acc': "acc' = acc \<or>
      (acc' = acc @ [(fst cur + dx, snd cur + dy, dx div 2, dy div 2)]
        \<and> grid_get g (fst cur + dx) (snd cur + dy) = Inr Wall)"
    by (auto simp: Let_def split: if_splits sum.splits)
  from Cons.IH[OF step Cons.prems(2)] acc' show ?case by auto
qed

lemma grid_set_physical:
  assumes "grid_set g x y v = Inr g'"
  obtains i j where "py_index x (length g) = Some i" "py_index y (length (g ! i)) = Some j"
    "i < length g" "j < length (g ! i)" "g' = g[i := (g ! i)[j := v]]"
  using assms by (auto simp: grid_set_def dest: py_index_less split: option.splits)

lemma grid_get_physical:
  assumes "grid_get g x y = Inr u"
  obtains i j where "py_index x (length g) = Some i" "py_index y (length (g ! i)) = Some j"
    "i < length g" "j < length (g ! i)" "g ! i ! j = u"
  using assms by (auto simp: grid_get_def dest: py_index_less split: option.splits)

lemma carve_step_cases:
  assumes "carve_step rng w h (k, dirs, g, stack) = Inr (k', dirs', g', stack')"
  obtains
    (pop) "shuffle rng k dirs = (dirs', k')"
      "find_neighbors w h (last stack) dirs' g [] = Inr []"
      "g' = g" "stack' = butlast stack"
  | (push) nx ny wx wy rest g1 where "shuffle rng k dirs = (dirs', k')"
      "find_neighbors w h (last stack) dirs' g [] = Inr ((nx, ny, wx, wy) # rest)"
      "grid_set g (fst (last stack) + wx) (snd (last stack) + wy) Passage = Inr g1"
      "grid_set g1 nx ny Passage = Inr g'"
      "stack' = stack @ [(nx, ny)]"
proof -
  obtain ds k1 where sh: "shuffle rng k dirs = (ds, k1)" by (cases "shuffle rng k dirs")
  from assms sh obtain ns where ns: "find_neighbors w h (last stack) ds g [] = Inr ns"
    by (auto simp: carve_step_def Let_def split: sum.splits)
  show ?thesis
  proof (cases ns)
    case Nil
    with assms sh ns show ?thesis
      by (intro pop) (auto simp: carve_step_def Let_def)
  next
    case (Cons n rest)
    obtain nx ny wx wy where n: "n = (nx, ny, wx, wy)" by (cases n) auto
    from assms sh ns Cons n obtain g1 where
      "grid_set g (fst (last stack) + wx) (snd (last stack) + wy) Passage = Inr g1"
      "grid_set g1 nx ny Passage = Inr g'" "stack' = stack @ [(nx, ny)]"
      "ds = dirs'" "k1 = k'"
      by (auto simp: carve_step_def Let_def split: sum.splits)
    with sh ns Cons n show ?thesis
      by (intro push[of nx ny wx wy rest g1]) auto
  qed
qed

lemma carve_step_measure:
  assumes "carve_step rng w h (k, dirs, g, stack) = Inr (k', dirs', g', stack')"
    and "stack \<noteq> []"
  shows "2 * card (cells_with Wall g') + length stack'
           < 2 * card (cells_with Wall g) + length stack"
  using assms(1)
proof (cases rule: carve_step_cases)
  case pop
  with assms(2) show ?thesis by (cases stack rule: rev_cases) auto
next
  case (push nx ny wx wy rest g1)
  from find_neighbors_wall[OF push(2), of "(nx, ny, wx, wy)"]
  have wall: "grid_get g nx ny = Inr Wall" by simp
  from push(3) obtain a b where ab: "a < length g" "b < length (g ! a)"
    "g1 = g[a := (g ! a)[b := Passage]]"
    by (rule grid_set_physical)
  then have len1: "length g1 = length g"
    "\<And>r. r < length g \<Longrightarrow> length (g1 ! r) = length (g ! r)"
    by (auto simp: nth_list_update)
  from wall obtain i j where ij: "py_index nx (length g) = Some i"
    "py_index ny (length (g ! i)) = Some j" "i < length g" "j < length (g ! i)"
    "g ! i ! j = Wall"
    by (rule grid_get_physical)
  from push(4) ij len1 have g': "g' = g1[i := (g1 ! i)[j := Passage]]"
    by (auto simp: grid_set_def)
  have "cells_with Wall g1 = cells_with Wall g - {(a, b)}"
    using cells_with_update[OF ab(1,2), of Passage Wall] ab(3) by simp
  moreover have "cells_with Wall g' = cells_with Wall g1 - {(i, j)}"
    using cells_with_update[of i g1 j Passage Wall] ij len1 g' by simp
  ultimately have sub: "cells_with Wall g' \<subseteq> cells_with Wall g - {(i, j)}"
    by auto
  have "(i, j) \<in> cells_with Wall g"
    using ij by (simp add: cells_with_def)
  then have "card (cells_with Wall g - {(i, j)}) < card (cells_with Wall g)"
    using finite_cells_with[of Wall g] by (intro card_Diff1_less) auto
  moreover have "card (cells_with Wall g') \<le> card (cells_with Wall g - {(i, j)})"
    using sub finite_cells_with[of Wall g] by (intro card_mono) auto
  ultimately show ?thesis using push(5) by simp
qed

text \<open>The loop \<open>while stack\<close>; it returns the carved grid.\<close>

function carve_loop :: "rand \<Rightarrow> int \<Rightarrow> int \<Rightarrow> gen_state \<Rightarrow> error + grid" where
  "carve_loop rng w h (k, dirs, g, stack) =
     (if stack = [] then Inr g
      else
        (case carve_step rng w h (k, dirs, g, stack) of
           Inl e \<Rightarrow> Inl e
         | Inr s' \<Rightarrow> carve_loop rng w h s'))"
  by pat_completeness auto
termination
proof (relation "measure (\<lambda>(rng, w, h, k, dirs, g, stack).
         2 * card (cells_with Wall g) + length stack)", goal_cases)
  case 1
  show ?case by simp
next
  case (2 rng w h k dirs g stack s')
  obtain k' dirs' g' stack' where "s' = (k', dirs', g', stack')"
    by (cases s') auto
  with 2 carve_step_measure[of rng w h k dirs g stack k' dirs' g' stack']
  show ?case by simp
qed

text \<open>
  The positions appended to the stack by the loop, in the order of the pushes (a
  record of the run, defined along the same recursion as \<open>carve_loop\<close>).
\<close>

function carve_pushes :: "rand \<Rightarrow> int \<Rightarrow> int \<Rightarrow> gen_state \<Rightarrow> pos list" where
  "carve_pushes rng w h (k, dirs, g, stack) =
     (if stack = [] then []
      else
        (case carve_step rng w h (k, dirs, g, stack) of
           Inl e \<Rightarrow> []
         | Inr (k', dirs', g', stack') \<Rightarrow>
             (if length stack < length stack' then [last stack'] else [])
               @ carve_pushes rng w h (k', dirs', g', stack')))"
  by pat_completeness auto
termination
proof (relation "measure (\<lambda>(rng, w, h, k, dirs, g, stack).
         2 * card (cells_with Wall g) + length stack)", goal_cases)
  case 1
  show ?case by simp
next
  case (2 rng w h k dirs g stack s' k' x dirs' y g' stack')
  with carve_step_measure[of rng w h k dirs g stack k' dirs' g' stack']
  show ?case by auto
qed

definition lattice_directions :: "(int \<times> int) list" where
  "lattice_directions = [(0, 2), (2, 0), (0, - 2), (- 2, 0)]"

text \<open>
  \<open>generate_maze\<close>: reset the grid, carve from \<open>(1, 1)\<close>, then open the entrance
  \<open>(0, 1)\<close> and the exit \<open>(height - 1, width - 2)\<close>.
\<close>

definition generate_maze :: "rand \<Rightarrow> Maze \<Rightarrow> error + Maze" where
  "generate_maze rng m =
     (case reset_grid (maze m) (py_range (height m)) (py_range (width m)) of
        Inl e \<Rightarrow> Inl e
      | Inr g0 \<Rightarrow>
          (case grid_set g0 1 1 Passage of
             Inl e \<Rightarrow> Inl e
           | Inr g1 \<Rightarrow>
               (case carve_loop rng (width m) (height m)
                       (0, lattice_directions, g1, [(1, 1)]) of
                  Inl e \<Rightarrow> Inl e
                | Inr g2 \<Rightarrow>
                    (let s = (0, 1); e = (height m - 1, width m - 2) in
                     case grid_set g2 (fst s) (snd s) Passage of
                       Inl e' \<Rightarrow> Inl e'
                     | Inr g3 \<Rightarrow>
                         (case grid_set g3 (fst e) (snd e) Passage of
                            Inl e' \<Rightarrow> Inl e'
                          | Inr g4 \<Rightarrow>
                              Inr (m\<lparr>maze := g4, start_pos := s, end_pos := e\<rparr>))))))"

section \<open>Vocabulary of the specification\<close>

subsection \<open>Well-formed grids and positions\<close>

definition in_bounds :: "int \<Rightarrow> int \<Rightarrow> pos \<Rightarrow> bool" where
  "in_bounds w h p \<longleftrightarrow> 0 \<le> fst p \<and> fst p < h \<and> 0 \<le> snd p \<and> snd p < w"

definition wf_grid :: "int \<Rightarrow> int \<Rightarrow> grid \<Rightarrow> bool" where
  "wf_grid w h g \<longleftrightarrow> length g = nat h \<and> (\<forall>r \<in> set g. length r = nat w)"

definition wf_maze :: "Maze \<Rightarrow> bool" where
  "wf_maze m \<longleftrightarrow> wf_grid (width m) (height m) (maze m)"

definition cell :: "grid \<Rightarrow> pos \<Rightarrow> int" where
  "cell g p = g ! nat (fst p) ! nat (snd p)"

definition put :: "grid \<Rightarrow> pos \<Rightarrow> int \<Rightarrow> grid" where
  "put g p v = g[nat (fst p) := (g ! nat (fst p))[nat (snd p) := v]]"

definition adjacent :: "pos \<Rightarrow> pos \<Rightarrow> bool" where
  "adjacent p q \<longleftrightarrow> \<bar>fst p - fst q\<bar> + \<bar>snd p - snd q\<bar> = 1"

definition passable :: "int \<Rightarrow> int \<Rightarrow> grid \<Rightarrow> pos \<Rightarrow> bool" where
  "passable w h g p \<longleftrightarrow> in_bounds w h p \<and> cell g p = Passage"

subsection \<open>Walks and distances in the grid\<close>

text \<open>
  \<open>reach w h g s n p\<close>: there is a walk of \<open>n\<close> steps from \<open>s\<close> to \<open>p\<close>, each step to a
  4-adjacent position that is inside the grid and a passage.
\<close>

inductive reach :: "int \<Rightarrow> int \<Rightarrow> grid \<Rightarrow> pos \<Rightarrow> nat \<Rightarrow> pos \<Rightarrow> bool"
  for w h g s where
  reach_start: "reach w h g s 0 s"
| reach_step: "reach w h g s n q \<Longrightarrow> adjacent q p \<Longrightarrow> passable w h g p
                \<Longrightarrow> reach w h g s (Suc n) p"

inductive_cases reach_zeroE: "reach w h g s 0 p"

inductive_cases reach_SucE: "reach w h g s (Suc n) p"

text \<open>
  A list of positions is a walk when each position after the first is 4-adjacent to
  its predecessor (Manhattan distance 1), inside the grid and a passage.
\<close>

fun is_walk :: "int \<Rightarrow> int \<Rightarrow> grid \<Rightarrow> pos list \<Rightarrow> bool" where
  "is_walk w h g [] = True"
| "is_walk w h g [p] = True"
| "is_walk w h g (p # q # ps) \<longleftrightarrow> adjacent p q \<and> passable w h g q \<and> is_walk w h g (q # ps)"

subsection \<open>A reference breadth-first search by layers\<close>

text \<open>
  Layer \<open>0\<close> is the entrance; layer \<open>n + 1\<close> holds the passable 4-neighbours of layer
  \<open>n\<close> that no earlier layer holds. The layer depth of a position is the index of the
  layer it belongs to.
\<close>

definition neighbours4 :: "pos \<Rightarrow> pos list" where
  "neighbours4 p = map (\<lambda>d. (fst p + fst d, snd p + snd d)) directions4"

fun ref_layers :: "int \<Rightarrow> int \<Rightarrow> grid \<Rightarrow> pos \<Rightarrow> nat \<Rightarrow> pos list \<times> pos list" where
  "ref_layers w h g s 0 = ([s], [s])"
| "ref_layers w h g s (Suc n) =
     (case ref_layers w h g s n of
        (frontier, seen) \<Rightarrow>
          (let new = remdups (filter (\<lambda>p. passable w h g p \<and> p \<notin> set seen)
                                (concat (map neighbours4 frontier)))
           in (new, seen @ new)))"

definition bfs_layer :: "Maze \<Rightarrow> nat \<Rightarrow> pos list" where
  "bfs_layer m n = fst (ref_layers (width m) (height m) (maze m) (start_pos m) n)"

subsection \<open>The border, the interior and the coarse lattice\<close>

definition interior :: "int \<Rightarrow> int \<Rightarrow> pos \<Rightarrow> bool" where
  "interior w h p \<longleftrightarrow> 0 < fst p \<and> fst p < h - 1 \<and> 0 < snd p \<and> snd p < w - 1"

definition on_border :: "int \<Rightarrow> int \<Rightarrow> pos \<Rightarrow> bool" where
  "on_border w h p \<longleftrightarrow> fst p = 0 \<or> fst p = h - 1 \<or> snd p = 0 \<or> snd p = w - 1"

definition lattice_cell :: "pos \<Rightarrow> bool" where
  "lattice_cell p \<longleftrightarrow> odd (fst p) \<and> odd (snd p)"

subsection \<open>Pushes and iterations of the carving loop\<close>

text \<open>
  The positions pushed by one run of \<open>generate_maze\<close>: the start cell \<open>(1, 1)\<close> of
  the initial stack, then the pushes of the loop.
\<close>

definition generate_pushes :: "rand \<Rightarrow> Maze \<Rightarrow> pos list" where
  "generate_pushes rng m =
     (case reset_grid (maze m) (py_range (height m)) (py_range (width m)) of
        Inl e \<Rightarrow> []
      | Inr g0 \<Rightarrow>
          (case grid_set g0 1 1 Passage of
             Inl e \<Rightarrow> []
           | Inr g1 \<Rightarrow>
               (1, 1) # carve_pushes rng (width m) (height m)
                          (0, lattice_directions, g1, [(1, 1)])))"

text \<open>The number of iterations of \<open>while stack\<close>, along the recursion of \<open>carve_loop\<close>.\<close>

function carve_iterations :: "rand \<Rightarrow> int \<Rightarrow> int \<Rightarrow> gen_state \<Rightarrow> nat" where
  "carve_iterations rng w h (k, dirs, g, stack) =
     (if stack = [] then 0
      else
        (case carve_step rng w h (k, dirs, g, stack) of
           Inl e \<Rightarrow> 1
         | Inr s' \<Rightarrow> Suc (carve_iterations rng w h s')))"
  by pat_completeness auto
termination
proof (relation "measure (\<lambda>(rng, w, h, k, dirs, g, stack).
         2 * card (cells_with Wall g) + length stack)", goal_cases)
  case 1
  show ?case by simp
next
  case (2 rng w h k dirs g stack s')
  obtain k' dirs' g' stack' where "s' = (k', dirs', g', stack')"
    by (cases s') auto
  with 2 carve_step_measure[of rng w h k dirs g stack k' dirs' g' stack']
  show ?case by simp
qed

declare carve_iterations.simps [simp del]

text \<open>The positions pushed and the iterations made by one run of \<open>generate_maze\<close>.\<close>

definition generate_iterations :: "rand \<Rightarrow> Maze \<Rightarrow> nat" where
  "generate_iterations rng m =
     (case reset_grid (maze m) (py_range (height m)) (py_range (width m)) of
        Inl e \<Rightarrow> 0
      | Inr g0 \<Rightarrow>
          (case grid_set g0 1 1 Passage of
             Inl e \<Rightarrow> 0
           | Inr g1 \<Rightarrow>
               carve_iterations rng (width m) (height m)
                 (0, lattice_directions, g1, [(1, 1)])))"

section \<open>Invariants\<close>

subsection \<open>The search loop\<close>

text \<open>
  \<open>l\<close> gives every discovered position its level (the length of its chain of
  predecessors). \<open>bfs_tree\<close>: the dictionary is a tree of predecessors rooted at the
  entrance whose levels are the true distances. \<open>bfs_marks\<close>: the grid is the
  original one with exactly the discovered positions other than the entrance set to
  \<open>2\<close>. \<open>bfs_front\<close>: the queue holds discovered positions in the order of their
  levels, which span at most two consecutive values; whatever was dequeued has all its
  passable neighbours discovered, and so has everything closer than the head.
\<close>

definition bfs_tree :: "int \<Rightarrow> int \<Rightarrow> grid \<Rightarrow> pos \<Rightarrow> (pos \<Rightarrow> nat) \<Rightarrow> visited \<Rightarrow> bool" where
  "bfs_tree w h g0 s l vis \<longleftrightarrow>
     vis s = Some None \<and> l s = 0 \<and>
     (\<forall>p. vis p = Some None \<longrightarrow> p = s) \<and>
     (\<forall>p c. vis p = Some (Some c) \<longrightarrow>
        p \<noteq> s \<and> passable w h g0 p \<and> vis c \<noteq> None \<and> adjacent c p \<and> l p = Suc (l c)) \<and>
     (\<forall>p. vis p \<noteq> None \<longrightarrow> reach w h g0 s (l p) p) \<and>
     (\<forall>p n. vis p \<noteq> None \<longrightarrow> reach w h g0 s n p \<longrightarrow> l p \<le> n)"

definition bfs_marks :: "int \<Rightarrow> int \<Rightarrow> grid \<Rightarrow> pos \<Rightarrow> visited \<Rightarrow> grid \<Rightarrow> bool" where
  "bfs_marks w h g0 s vis g \<longleftrightarrow>
     wf_grid w h g \<and>
     (\<forall>p. in_bounds w h p \<longrightarrow>
        cell g p = (if vis p \<noteq> None \<and> p \<noteq> s then Visited else cell g0 p))"

definition bfs_front ::
  "int \<Rightarrow> int \<Rightarrow> grid \<Rightarrow> pos \<Rightarrow> (pos \<Rightarrow> nat) \<Rightarrow> visited \<Rightarrow> pos list \<Rightarrow> bool" where
  "bfs_front w h g0 s l vis queue \<longleftrightarrow>
     (\<forall>x \<in> set queue. vis x \<noteq> None) \<and>
     sorted (map l queue) \<and>
     (\<forall>x \<in> set queue. l x \<le> Suc (l (hd queue))) \<and>
     (\<forall>p q. vis p \<noteq> None \<and> p \<notin> set queue \<and> adjacent p q \<and> passable w h g0 q
        \<longrightarrow> vis q \<noteq> None) \<and>
     (\<forall>n p. queue \<noteq> [] \<and> reach w h g0 s n p \<and> n < l (hd queue)
        \<longrightarrow> vis p \<noteq> None \<and> p \<notin> set queue)"

definition bfs_inv ::
  "int \<Rightarrow> int \<Rightarrow> grid \<Rightarrow> pos \<Rightarrow> (pos \<Rightarrow> nat) \<Rightarrow> pos list \<Rightarrow> visited \<Rightarrow> grid \<Rightarrow> bool" where
  "bfs_inv w h g0 s l queue vis g \<longleftrightarrow>
     bfs_tree w h g0 s l vis \<and> bfs_marks w h g0 s vis g \<and> bfs_front w h g0 s l vis queue"

text \<open>
  What one call of \<open>solve_sequential\<close> on a well-formed grid does, in one statement:
  the search returns a predecessor tree with true distances, the reconstruction
  terminates, the marking stays inside the grid, and the final grid is described cell
  by cell.
\<close>

definition solve_run ::
  "Maze \<Rightarrow> (pos \<Rightarrow> nat) \<Rightarrow> visited \<Rightarrow> grid \<Rightarrow> pos list \<Rightarrow> grid \<Rightarrow> bool" where
  "solve_run m l vis g1 cs g' \<longleftrightarrow>
     bfs_loop (width m) (height m) (end_pos m) [start_pos m] [start_pos m \<mapsto> None] (maze m)
       = Inr (vis, g1) \<and>
     bfs_tree (width m) (height m) (maze m) (start_pos m) l vis \<and>
     bfs_marks (width m) (height m) (maze m) (start_pos m) vis g1 \<and>
     (vis (end_pos m) = None \<longrightarrow>
        (\<forall>n. \<not> reach (width m) (height m) (maze m) (start_pos m) n (end_pos m))) \<and>
     (\<forall>nb. start_pos m \<noteq> end_pos m \<and> adjacent (start_pos m) nb
          \<and> passable (width m) (height m) (maze m) nb \<longrightarrow> vis nb \<noteq> None) \<and>
     reconstruct vis (Some (end_pos m)) [] = Some cs \<and>
     (vis (end_pos m) = None \<longrightarrow> cs = [end_pos m]) \<and>
     (vis (end_pos m) \<noteq> None \<longrightarrow>
        length cs = Suc (l (end_pos m)) \<and> hd cs = end_pos m \<and> last cs = start_pos m \<and>
        is_walk (width m) (height m) (maze m) (rev cs) \<and> (\<forall>q \<in> set cs. vis q \<noteq> None)) \<and>
     (\<forall>q. q \<in> set cs \<and> q \<noteq> end_pos m \<longrightarrow> vis q \<noteq> None) \<and>
     mark_path (start_pos m) (end_pos m) cs g1 = Inr g' \<and>
     wf_grid (width m) (height m) g' \<and>
     (\<forall>q. in_bounds (width m) (height m) q \<longrightarrow>
        cell g' q = (if q \<in> set cs \<and> q \<noteq> start_pos m \<and> q \<noteq> end_pos m then OnPath
                     else cell g1 q)) \<and>
     solve_sequential m = Some (Inr (rev cs, m\<lparr>maze := g'\<rparr>))"

subsection \<open>The carving loop\<close>

text \<open>
  The invariant of \<open>while stack\<close>: the grid keeps its shape, \<open>directions\<close> is a
  rearrangement of the four lattice steps, every stacked position is an interior
  lattice cell, and every cell that is not interior is still a wall.
\<close>

definition carve_inv :: "int \<Rightarrow> int \<Rightarrow> gen_state \<Rightarrow> bool" where
  "carve_inv w h s \<longleftrightarrow>
     (case s of (k, dirs, g, stack) \<Rightarrow>
        wf_grid w h g \<and> set dirs \<subseteq> set lattice_directions \<and>
        (\<forall>p \<in> set stack. interior w h p \<and> lattice_cell p) \<and>
        (\<forall>p. in_bounds w h p \<and> \<not> interior w h p \<longrightarrow> cell g p = Wall))"

section \<open>Sample inputs\<close>

text \<open>A random source whose every draw is the same number.\<close>

definition const_rng :: "nat \<Rightarrow> rand" where
  "const_rng c k = c"

text \<open>The maze \<open>generate_maze\<close> makes of a 3 by 3 grid, before and after solving.\<close>

definition maze3 :: Maze where
  "maze3 = \<lparr> width = 3, height = 3,
      maze = [[- 1, 0, - 1], [- 1, 0, - 1], [- 1, 0, - 1]],
      start_pos = (0, 1), end_pos = (2, 1) \<rparr>"

definition maze3_solved :: Maze where
  "maze3_solved = \<lparr> width = 3, height = 3,
      maze = [[- 1, 0, - 1], [- 1, 3, - 1], [- 1, 2, - 1]],
      start_pos = (0, 1), end_pos = (2, 1) \<rparr>"

text \<open>The maze \<open>generate_maze\<close> makes of a 4 by 4 grid, before and after solving.\<close>

definition maze4 :: Maze where
  "maze4 = \<lparr> width = 4, height = 4,
      maze = [[- 1, 0, - 1, - 1], [- 1, 0, - 1, - 1], [- 1, - 1, - 1, - 1], [- 1, - 1, 0, - 1]],
      start_pos = (0, 1), end_pos = (3, 2) \<rparr>"

definition maze4_solved :: Maze where
  "maze4_solved = \<lparr> width = 4, height = 4,
      maze = [[- 1, 0, - 1, - 1], [- 1, 2, - 1, - 1], [- 1, - 1, - 1, - 1], [- 1, - 1, 0, - 1]],
      start_pos = (0, 1), end_pos = (3, 2) \<rparr>"

text \<open>A grid without inner walls whose exit is next to the entrance.\<close>

definition open23 :: Maze where
  "open23 = \<lparr> width = 3, height = 2, maze = [[0, 0, 0], [0, 0, - 1]],
      start_pos = (0, 0), end_pos = (1, 0) \<rparr>"

definition open23_solved :: Maze where
  "open23_solved = \<lparr> width = 3, height = 2, maze = [[0, 2, 2], [2, 2, - 1]],
      start_pos = (0, 0), end_pos = (1, 0) \<rparr>"

text \<open>A 3 by 3 grid of passages with entrance and exit in opposite corners.\<close>

definition open33 :: Maze where
  "open33 = \<lparr> width = 3, height = 3, maze = [[0, 0, 0], [0, 0, 0], [0, 0, 0]],
      start_pos = (0, 0), end_pos = (2, 2) \<rparr>"

text \<open>A walk through \<open>open33\<close> from corner to corner that makes a detour.\<close>

definition detour33 :: "pos list" where
  "detour33 = [(0, 0), (0, 1), (1, 1), (1, 0), (2, 0), (2, 1), (2, 2)]"

text \<open>The path through \<open>maze3\<close>.\<close>

definition path3 :: "pos list" where
  "path3 = [(0, 1), (1, 1), (2, 1)]"

section \<open>Grid access on well-formed grids\<close>

lemma grid_get_in_bounds:
  "wf_grid w h g \<Longrightarrow> in_bounds w h (x, y) \<Longrightarrow> grid_get g x y = Inr (cell g (x, y))"
  by (auto simp: wf_grid_def in_bounds_def grid_get_def py_index_def cell_def)

lemma grid_set_in_bounds:
  "wf_grid w h g \<Longrightarrow> in_bounds w h (x, y) \<Longrightarrow> grid_set g x y v = Inr (put g (x, y) v)"
  by (auto simp: wf_grid_def in_bounds_def grid_set_def py_index_def put_def)

lemma wf_grid_put: "wf_grid w h g \<Longrightarrow> wf_grid w h (put g p v)"
proof (cases "nat (fst p) < length g")
  case True
  assume "wf_grid w h g"
  with True show ?thesis
    by (auto simp: wf_grid_def put_def dest!: set_update_subset_insert[THEN subsetD])
next
  case False
  assume "wf_grid w h g"
  with False show ?thesis by (simp add: put_def list_update_beyond)
qed

lemma cell_put:
  "wf_grid w h g \<Longrightarrow> in_bounds w h p \<Longrightarrow> in_bounds w h q \<Longrightarrow>
     cell (put g p v) q = (if q = p then v else cell g q)"
  by (auto simp: wf_grid_def in_bounds_def cell_def put_def nth_list_update prod_eq_iff)

lemma wf_maze_init: "wf_maze (Maze_init w h)"
  by (simp add: wf_maze_def wf_grid_def Maze_init_def)

lemma adjacent_directions4:
  "(dx, dy) \<in> set directions4 \<Longrightarrow> adjacent c (fst c + dx, snd c + dy)"
  by (auto simp: directions4_def adjacent_def)

lemma adjacent_cases:
  assumes "adjacent c q"
  shows "\<exists>d \<in> set directions4. q = (fst c + fst d, snd c + snd d)"
proof -
  from assms have "(fst q - fst c, snd q - snd c) \<in> set directions4"
    by (auto simp: adjacent_def directions4_def)
  then show ?thesis by (intro bexI[of _ "(fst q - fst c, snd q - snd c)"]) auto
qed

lemma adjacent_neq: "adjacent p q \<Longrightarrow> p \<noteq> q"
  by (auto simp: adjacent_def)

section \<open>The search loop keeps its invariant\<close>

lemma bfs_treeD:
  assumes "bfs_tree w h g0 s l vis"
  shows "vis s = Some None" and "l s = 0"
    and "\<And>p. vis p = Some None \<Longrightarrow> p = s"
    and "\<And>p c. vis p = Some (Some c) \<Longrightarrow>
           p \<noteq> s \<and> passable w h g0 p \<and> vis c \<noteq> None \<and> adjacent c p \<and> l p = Suc (l c)"
    and "\<And>p. vis p \<noteq> None \<Longrightarrow> reach w h g0 s (l p) p"
    and "\<And>p n. vis p \<noteq> None \<Longrightarrow> reach w h g0 s n p \<Longrightarrow> l p \<le> n"
  using assms unfolding bfs_tree_def by blast+

lemma bfs_marksD:
  assumes "bfs_marks w h g0 s vis g"
  shows "wf_grid w h g"
    and "\<And>p. in_bounds w h p \<Longrightarrow>
           cell g p = (if vis p \<noteq> None \<and> p \<noteq> s then Visited else cell g0 p)"
  using assms unfolding bfs_marks_def by blast+

lemma bfs_frontD:
  assumes "bfs_front w h g0 s l vis queue"
  shows "\<And>x. x \<in> set queue \<Longrightarrow> vis x \<noteq> None"
    and "sorted (map l queue)"
    and "\<And>x. x \<in> set queue \<Longrightarrow> l x \<le> Suc (l (hd queue))"
    and "\<And>p q. vis p \<noteq> None \<Longrightarrow> p \<notin> set queue \<Longrightarrow> adjacent p q \<Longrightarrow> passable w h g0 q
           \<Longrightarrow> vis q \<noteq> None"
    and "\<And>n p. queue \<noteq> [] \<Longrightarrow> reach w h g0 s n p \<Longrightarrow> n < l (hd queue)
           \<Longrightarrow> vis p \<noteq> None \<and> p \<notin> set queue"
  using assms unfolding bfs_front_def by blast+

lemma bfs_inv_init:
  assumes "wf_grid w h g0"
  shows "bfs_inv w h g0 s (\<lambda>_. 0) [s] [s \<mapsto> None] g0"
proof -
  have "bfs_tree w h g0 s (\<lambda>_. 0) [s \<mapsto> None]"
    unfolding bfs_tree_def by (simp add: reach_start)
  moreover have "bfs_marks w h g0 s [s \<mapsto> None] g0"
    unfolding bfs_marks_def using assms by simp
  moreover have "bfs_front w h g0 s (\<lambda>_. 0) [s \<mapsto> None] [s]"
    unfolding bfs_front_def by simp
  ultimately show ?thesis by (simp add: bfs_inv_def)
qed

lemma bfs_discover:
  assumes inv: "bfs_inv w h g0 s l (c # queue) vis g"
    and adj: "adjacent c nb" and pass: "passable w h g0 nb" and new: "vis nb = None"
  shows "bfs_inv w h g0 s (l(nb := Suc (l c))) (c # queue @ [nb]) (vis(nb \<mapsto> Some c))
           (put g nb Visited)"
proof -
  from inv have tree: "bfs_tree w h g0 s l vis" and marks: "bfs_marks w h g0 s vis g"
    and front: "bfs_front w h g0 s l vis (c # queue)"
    by (auto simp: bfs_inv_def)
  note T = bfs_treeD[OF tree] and M = bfs_marksD[OF marks] and F = bfs_frontD[OF front]
  from T(1) new have nbs: "nb \<noteq> s" by auto
  from F(1) have cvis: "vis c \<noteq> None" by simp
  with new have cnb: "c \<noteq> nb" by auto
  from F(1)[of nb] new have qnb: "nb \<notin> set queue" by auto
  have low: "Suc (l c) \<le> n" if r: "reach w h g0 s n nb" for n
  proof (cases n)
    case 0
    with r have "nb = s" by (auto elim: reach_zeroE)
    with nbs show ?thesis by simp
  next
    case (Suc k)
    with r obtain q where q: "reach w h g0 s k q" "adjacent q nb"
      by (auto elim: reach_SucE)
    show ?thesis
    proof (rule ccontr)
      assume "\<not> Suc (l c) \<le> n"
      with Suc have "k < l c" by simp
      with F(5)[of k q] q(1) have "vis q \<noteq> None" "q \<notin> set (c # queue)" by auto
      from F(4)[OF this q(2) pass] new show False by simp
    qed
  qed
  have t: "bfs_tree w h g0 s (l(nb := Suc (l c))) (vis(nb \<mapsto> Some c))"
    unfolding bfs_tree_def
  proof (intro conjI allI impI)
    show "(vis(nb \<mapsto> Some c)) s = Some None"
      using T(1) nbs by simp
    show "(l(nb := Suc (l c))) s = 0"
      using T(2) nbs by simp
  next
    fix p assume "(vis(nb \<mapsto> Some c)) p = Some None"
    then have "vis p = Some None" by (simp split: if_splits)
    then show "p = s" by (rule T(3))
  next
    fix p c' assume a: "(vis(nb \<mapsto> Some c)) p = Some (Some c')"
    have *: "p \<noteq> s \<and> passable w h g0 p \<and> (vis(nb \<mapsto> Some c)) c' \<noteq> None \<and> adjacent c' p
          \<and> (l(nb := Suc (l c))) p = Suc ((l(nb := Suc (l c))) c')"
    proof (cases "p = nb")
      case True
      with a have "c' = c" by simp
      with True nbs pass adj cvis cnb show ?thesis by simp
    next
      case False
      with a have "vis p = Some (Some c')" by simp
      from T(4)[OF this] new False show ?thesis by auto
    qed
    from * show "p \<noteq> s" by simp
    from * show "passable w h g0 p" by simp
    from * show "(vis(nb \<mapsto> Some c)) c' \<noteq> None" by simp
    from * show "adjacent c' p" by simp
    from * show "(l(nb := Suc (l c))) p = Suc ((l(nb := Suc (l c))) c')" by simp
  next
    fix p assume a: "(vis(nb \<mapsto> Some c)) p \<noteq> None"
    show "reach w h g0 s ((l(nb := Suc (l c))) p) p"
    proof (cases "p = nb")
      case True
      from reach_step[OF T(5)[OF cvis] adj pass] True show ?thesis by simp
    next
      case False
      with a T(5)[of p] show ?thesis by simp
    qed
  next
    fix p n assume a: "(vis(nb \<mapsto> Some c)) p \<noteq> None" and r: "reach w h g0 s n p"
    show "(l(nb := Suc (l c))) p \<le> n"
    proof (cases "p = nb")
      case True
      with low r show ?thesis by simp
    next
      case False
      with a r T(6)[of p n] show ?thesis by simp
    qed
  qed
  have m: "bfs_marks w h g0 s (vis(nb \<mapsto> Some c)) (put g nb Visited)"
    unfolding bfs_marks_def
  proof (intro conjI allI impI)
    show "wf_grid w h (put g nb Visited)"
      using M(1) by (rule wf_grid_put)
    fix p assume p: "in_bounds w h p"
    from pass have "in_bounds w h nb" by (simp add: passable_def)
    from cell_put[OF M(1) this p]
    have "cell (put g nb Visited) p = (if p = nb then Visited else cell g p)" .
    with M(2)[OF p] nbs show "cell (put g nb Visited) p =
        (if (vis(nb \<mapsto> Some c)) p \<noteq> None \<and> p \<noteq> s then Visited else cell g0 p)"
      by (cases "p = nb"; cases "p = s"; simp)
  qed
  have lq: "(l(nb := Suc (l c))) x = l x" if "x \<in> set (c # queue)" for x
    using that cnb qnb by auto
  have maplq: "map (l(nb := Suc (l c))) queue = map l queue"
    by (rule map_cong) (use qnb in auto)
  have bnd: "l x \<le> Suc (l c)" if "x \<in> set (c # queue)" for x
    using F(3)[OF that] by simp
  have f: "bfs_front w h g0 s (l(nb := Suc (l c))) (vis(nb \<mapsto> Some c)) (c # queue @ [nb])"
    unfolding bfs_front_def
  proof (intro conjI allI impI ballI)
    fix x assume "x \<in> set (c # queue @ [nb])"
    then have "x = nb \<or> x \<in> set (c # queue)" by auto
    then show "(vis(nb \<mapsto> Some c)) x \<noteq> None"
      using F(1)[of x] by auto
  next
    have "sorted (map l (c # queue) @ [Suc (l c)])"
      unfolding sorted_append using F(2) bnd by auto
    then show "sorted (map (l(nb := Suc (l c))) (c # queue @ [nb]))"
      using cnb by (simp add: maplq)
  next
    fix x assume x: "x \<in> set (c # queue @ [nb])"
    then have "x = nb \<or> x \<in> set (c # queue)" by auto
    then show "(l(nb := Suc (l c))) x \<le> Suc ((l(nb := Suc (l c))) (hd (c # queue @ [nb])))"
      using bnd[of x] lq[of x] cnb by auto
  next
    fix p q
    assume a: "(vis(nb \<mapsto> Some c)) p \<noteq> None \<and> p \<notin> set (c # queue @ [nb])
               \<and> adjacent p q \<and> passable w h g0 q"
    then have "vis p \<noteq> None" "p \<notin> set (c # queue)" by (auto split: if_splits)
    from F(4)[OF this] a have "vis q \<noteq> None" by simp
    then show "(vis(nb \<mapsto> Some c)) q \<noteq> None" by simp
  next
    fix n p
    assume a: "c # queue @ [nb] \<noteq> [] \<and> reach w h g0 s n p
               \<and> n < (l(nb := Suc (l c))) (hd (c # queue @ [nb]))"
    with cnb have "reach w h g0 s n p" "n < l (hd (c # queue))" by auto
    with F(5)[of n p] have b: "vis p \<noteq> None \<and> p \<notin> set (c # queue)" by simp
    with new have "p \<noteq> nb" by auto
    with b show "(vis(nb \<mapsto> Some c)) p \<noteq> None" "p \<notin> set (c # queue @ [nb])"
      by auto
  qed
  from t m f show ?thesis by (simp add: bfs_inv_def)
qed

lemma bfs_pop:
  assumes inv: "bfs_inv w h g0 s l (c # queue) vis g"
    and nbrs: "\<And>nb. adjacent c nb \<Longrightarrow> passable w h g0 nb \<Longrightarrow> vis nb \<noteq> None"
  shows "bfs_inv w h g0 s l queue vis g"
proof -
  from inv have tree: "bfs_tree w h g0 s l vis" and marks: "bfs_marks w h g0 s vis g"
    and front: "bfs_front w h g0 s l vis (c # queue)"
    by (auto simp: bfs_inv_def)
  note T = bfs_treeD[OF tree] and F = bfs_frontD[OF front]
  have bnd: "l x \<le> Suc (l c)" if "x \<in> set (c # queue)" for x
    using F(3)[OF that] by simp
  have near: "vis p \<noteq> None \<and> p \<notin> set (c # queue)" if "reach w h g0 s n p" "n < l c" for n p
    using F(5)[of n p] that by simp
  have exp': "vis q \<noteq> None"
    if "vis p \<noteq> None" "p \<notin> set queue" "adjacent p q" "passable w h g0 q" for p q
  proof (cases "p = c")
    case True
    with that nbrs show ?thesis by blast
  next
    case False
    with that have "p \<notin> set (c # queue)" by simp
    from F(4)[OF that(1) this that(3,4)] show ?thesis .
  qed
  have close: "vis p \<noteq> None" if "reach w h g0 s n p" "n \<le> l c" for n p
    using that(1)
  proof (cases rule: reach.cases)
    case reach_start
    with T(1) show ?thesis by simp
  next
    case (reach_step k q)
    with that(2) near[of k q] have "vis q \<noteq> None" "q \<notin> set (c # queue)" by auto
    from F(4)[OF this reach_step(3,4)] show ?thesis .
  qed
  have f: "bfs_front w h g0 s l vis queue"
    unfolding bfs_front_def
  proof (intro conjI allI impI ballI)
    fix x assume "x \<in> set queue"
    then show "vis x \<noteq> None" using F(1)[of x] by simp
  next
    from F(2) show "sorted (map l queue)" by simp
  next
    fix x assume x: "x \<in> set queue"
    then have "queue \<noteq> []" by auto
    then have "hd queue \<in> set queue" by simp
    with F(2) have "l c \<le> l (hd queue)" by auto
    with bnd[of x] x show "l x \<le> Suc (l (hd queue))" by simp
  next
    fix p q
    assume "vis p \<noteq> None \<and> p \<notin> set queue \<and> adjacent p q \<and> passable w h g0 q"
    with exp' show "vis q \<noteq> None" by blast
  next
    fix n p assume a: "queue \<noteq> [] \<and> reach w h g0 s n p \<and> n < l (hd queue)"
    then have hdq: "hd queue \<in> set queue" by simp
    with bnd[of "hd queue"] have "l (hd queue) \<le> Suc (l c)" by simp
    with a have "n \<le> l c" by simp
    with a close show v: "vis p \<noteq> None" by blast
    from T(6)[OF v] a have "l p \<le> n" by simp
    with a have lt: "l p < l (hd queue)" by simp
    show "p \<notin> set queue"
    proof
      assume "p \<in> set queue"
      moreover from F(2) have "sorted (map l queue)" by simp
      ultimately have "l (hd queue) \<le> l p"
        using a by (cases queue) auto
      with lt show False by simp
    qed
  qed
  from tree marks f show ?thesis by (simp add: bfs_inv_def)
qed

lemma explore_inv:
  assumes "bfs_inv w h g0 s l (c # queue) vis g" and "set ds \<subseteq> set directions4"
  shows "\<exists>queue' vis' g' l'.
           explore w h c ds queue vis g = Inr (queue', vis', g') \<and>
           bfs_inv w h g0 s l' (c # queue') vis' g' \<and>
           (\<forall>p. vis p \<noteq> None \<longrightarrow> vis' p \<noteq> None) \<and>
           (\<forall>d \<in> set ds. passable w h g0 (fst c + fst d, snd c + snd d)
              \<longrightarrow> vis' (fst c + fst d, snd c + snd d) \<noteq> None)"
  using assms
proof (induction ds arbitrary: l queue vis g)
  case Nil
  then show ?case by auto
next
  case (Cons d ds)
  obtain dx dy where d: "d = (dx, dy)" by (cases d)
  let ?nb = "(fst c + dx, snd c + dy)"
  from Cons.prems(2) d have adj: "adjacent c ?nb"
    by (intro adjacent_directions4) simp
  from Cons.prems(1) have marks: "bfs_marks w h g0 s vis g"
    by (simp add: bfs_inv_def)
  note M = bfs_marksD[OF marks]
  from Cons.prems(2) have ds: "set ds \<subseteq> set directions4" by simp
  have bounds: "(0 \<le> fst c + dx \<and> fst c + dx < h \<and> 0 \<le> snd c + dy \<and> snd c + dy < w)
                  = in_bounds w h ?nb"
    by (simp add: in_bounds_def)
  show ?case
  proof (cases "passable w h g0 ?nb \<and> vis ?nb = None")
    case True
    then have ib: "in_bounds w h ?nb" and c0: "cell g0 ?nb = Passage"
      by (auto simp: passable_def)
    from M(2)[OF ib] True c0 have cg: "cell g ?nb = Passage" by simp
    have eq: "explore w h c (d # ds) queue vis g
        = explore w h c ds (queue @ [?nb]) (vis(?nb \<mapsto> Some c)) (put g ?nb Visited)"
      using True ib cg grid_get_in_bounds[OF M(1) ib] grid_set_in_bounds[OF M(1) ib, of Visited]
      by (simp add: d Let_def bounds)
    from bfs_discover[OF Cons.prems(1) adj] True
    have "bfs_inv w h g0 s (l(?nb := Suc (l c))) (c # queue @ [?nb]) (vis(?nb \<mapsto> Some c))
            (put g ?nb Visited)" by simp
    from Cons.IH[OF this ds] obtain queue' vis' g' l' where
      r: "explore w h c ds (queue @ [?nb]) (vis(?nb \<mapsto> Some c)) (put g ?nb Visited)
            = Inr (queue', vis', g')"
      "bfs_inv w h g0 s l' (c # queue') vis' g'"
      "\<forall>p. (vis(?nb \<mapsto> Some c)) p \<noteq> None \<longrightarrow> vis' p \<noteq> None"
      "\<forall>d \<in> set ds. passable w h g0 (fst c + fst d, snd c + snd d)
              \<longrightarrow> vis' (fst c + fst d, snd c + snd d) \<noteq> None"
      by blast
    from r(3) have mono: "\<forall>p. vis p \<noteq> None \<longrightarrow> vis' p \<noteq> None"
      and nbv: "vis' ?nb \<noteq> None"
      by (auto split: if_splits)
    from eq r(1,2,4) mono nbv show ?thesis
      by (intro exI[of _ queue'] exI[of _ vis'] exI[of _ g'] exI[of _ l']) (simp add: d)
  next
    case False
    have eq: "explore w h c (d # ds) queue vis g = explore w h c ds queue vis g"
    proof (cases "in_bounds w h ?nb")
      case True
      from M(2)[OF True] False True
      have "\<not> (cell g ?nb = Passage \<and> vis ?nb = None)"
        by (auto simp: passable_def)
      with True grid_get_in_bounds[OF M(1) True] show ?thesis
        by (auto simp: d Let_def bounds)
    next
      case False
      then show ?thesis by (simp add: d Let_def bounds)
    qed
    from Cons.IH[OF Cons.prems(1) ds] obtain queue' vis' g' l' where
      r: "explore w h c ds queue vis g = Inr (queue', vis', g')"
      "bfs_inv w h g0 s l' (c # queue') vis' g'"
      "\<forall>p. vis p \<noteq> None \<longrightarrow> vis' p \<noteq> None"
      "\<forall>d \<in> set ds. passable w h g0 (fst c + fst d, snd c + snd d)
              \<longrightarrow> vis' (fst c + fst d, snd c + snd d) \<noteq> None"
      by blast
    from False r(3) have "passable w h g0 ?nb \<longrightarrow> vis' ?nb \<noteq> None" by blast
    with eq r show ?thesis
      by (intro exI[of _ queue'] exI[of _ vis'] exI[of _ g'] exI[of _ l']) (simp add: d)
  qed
qed

lemma explore_all_inv:
  assumes "bfs_inv w h g0 s l (c # queue) vis g"
  shows "\<exists>queue' vis' g' l'.
           explore w h c directions4 queue vis g = Inr (queue', vis', g') \<and>
           bfs_inv w h g0 s l' queue' vis' g' \<and>
           (\<forall>p. vis p \<noteq> None \<longrightarrow> vis' p \<noteq> None) \<and>
           (\<forall>nb. adjacent c nb \<and> passable w h g0 nb \<longrightarrow> vis' nb \<noteq> None)"
proof -
  from explore_inv[OF assms subset_refl] obtain queue' vis' g' l' where
    r: "explore w h c directions4 queue vis g = Inr (queue', vis', g')"
    "bfs_inv w h g0 s l' (c # queue') vis' g'"
    "\<forall>p. vis p \<noteq> None \<longrightarrow> vis' p \<noteq> None"
    "\<forall>d \<in> set directions4. passable w h g0 (fst c + fst d, snd c + snd d)
            \<longrightarrow> vis' (fst c + fst d, snd c + snd d) \<noteq> None"
    by blast
  have nb: "vis' nb \<noteq> None" if "adjacent c nb" "passable w h g0 nb" for nb
  proof -
    from adjacent_cases[OF that(1)] obtain d where
      "d \<in> set directions4" "nb = (fst c + fst d, snd c + snd d)" by blast
    with r(4) that(2) show ?thesis by blast
  qed
  from bfs_pop[OF r(2) nb] have "bfs_inv w h g0 s l' queue' vis' g'" by blast
  with r(1,3) nb show ?thesis by blast
qed

lemma bfs_front_closed:
  assumes "bfs_tree w h g0 s l vis" "bfs_front w h g0 s l vis []"
    and "reach w h g0 s n p"
  shows "vis p \<noteq> None"
  using assms(3)
proof (induction rule: reach.induct)
  case reach_start
  from bfs_treeD(1)[OF assms(1)] show ?case by simp
next
  case (reach_step n q p)
  from bfs_frontD(4)[OF assms(2) reach_step.IH _ reach_step.hyps(2,3)] show ?case by simp
qed

lemma bfs_loop_inv:
  assumes "bfs_inv w h g0 s l queue vis g"
  shows "\<exists>vis' g' l'.
           bfs_loop w h e queue vis g = Inr (vis', g') \<and>
           bfs_tree w h g0 s l' vis' \<and> bfs_marks w h g0 s vis' g' \<and>
           (\<forall>p. vis p \<noteq> None \<longrightarrow> vis' p \<noteq> None) \<and>
           (vis' e = None \<longrightarrow> (\<forall>n. \<not> reach w h g0 s n e))"
  using assms
proof (induction w h e queue vis g arbitrary: l rule: bfs_loop.induct)
  case (1 w h e vis g)
  then have t: "bfs_tree w h g0 s l vis" and m: "bfs_marks w h g0 s vis g"
    and f: "bfs_front w h g0 s l vis []"
    by (auto simp: bfs_inv_def)
  from bfs_front_closed[OF t f] have "vis e = None \<longrightarrow> (\<forall>n. \<not> reach w h g0 s n e)"
    by blast
  with t m show ?case by auto
next
  case (2 w h e cur queue vis g)
  show ?case
  proof (cases "cur = e")
    case True
    from "2.prems" have t: "bfs_tree w h g0 s l vis" and m: "bfs_marks w h g0 s vis g"
      and f: "bfs_front w h g0 s l vis (cur # queue)"
      by (auto simp: bfs_inv_def)
    from bfs_frontD(1)[OF f, of cur] True have "vis e \<noteq> None" by simp
    with True t m show ?thesis by auto
  next
    case False
    from explore_all_inv[OF "2.prems"] obtain queue' vis' g' l' where
      r: "explore w h cur directions4 queue vis g = Inr (queue', vis', g')"
      "bfs_inv w h g0 s l' queue' vis' g'"
      "\<forall>p. vis p \<noteq> None \<longrightarrow> vis' p \<noteq> None"
      by blast
    from "2.IH"[OF False r(1) refl refl r(2)] obtain vis'' g'' l'' where
      f: "bfs_loop w h e queue' vis' g' = Inr (vis'', g'')"
      "bfs_tree w h g0 s l'' vis''" "bfs_marks w h g0 s vis'' g''"
      "\<forall>p. vis' p \<noteq> None \<longrightarrow> vis'' p \<noteq> None"
      "vis'' e = None \<longrightarrow> (\<forall>n. \<not> reach w h g0 s n e)"
      by (elim exE conjE) (rule that; assumption)
    from False r(1) f(1) have eq: "bfs_loop w h e (cur # queue) vis g = Inr (vis'', g'')"
      by simp
    have mono: "vis'' p \<noteq> None" if "vis p \<noteq> None" for p
      using that r(3)[rule_format, of p] f(4)[rule_format, of p] by simp
    from eq f(2,3,5) mono show ?thesis
      by (intro exI[of _ vis''] exI[of _ g''] exI[of _ l'']) simp
  qed
qed

section \<open>Walks, reconstruction and marking\<close>

lemma is_walk_snoc:
  "is_walk w h g (ps @ [q]) \<longleftrightarrow>
     is_walk w h g ps \<and> (ps \<noteq> [] \<longrightarrow> adjacent (last ps) q \<and> passable w h g q)"
  by (induction w h g ps rule: is_walk.induct) auto

lemma reach_of_walk:
  "is_walk w h g ps \<Longrightarrow> ps \<noteq> [] \<Longrightarrow> reach w h g (hd ps) (length ps - 1) (last ps)"
proof (induction ps rule: rev_induct)
  case Nil
  then show ?case by simp
next
  case (snoc x xs)
  show ?case
  proof (cases "xs = []")
    case True
    then show ?thesis by (simp add: reach_start)
  next
    case False
    with snoc.prems have w: "is_walk w h g xs" "adjacent (last xs) x" "passable w h g x"
      by (auto simp: is_walk_snoc)
    from snoc.IH[OF w(1) False] have "reach w h g (hd xs) (length xs - 1) (last xs)" .
    from reach_step[OF this w(2,3)] False show ?thesis by simp
  qed
qed

lemma reconstruct_None: "reconstruct vis None path = Some path"
  by (subst reconstruct.simps) simp

lemma reconstruct_Some:
  "reconstruct vis (Some c) path = reconstruct vis (dict_get vis c) (path @ [c])"
  by (subst reconstruct.simps) simp

lemma reconstruct_chain:
  assumes "bfs_tree w h g0 s l vis" "vis p \<noteq> None"
  shows "\<exists>cs. reconstruct vis (Some p) acc = Some (acc @ cs) \<and> length cs = Suc (l p) \<and>
           hd cs = p \<and> last cs = s \<and> is_walk w h g0 (rev cs) \<and> (\<forall>q \<in> set cs. vis q \<noteq> None)"
  using assms(2)
proof (induction "l p" arbitrary: p acc)
  case 0
  note T = bfs_treeD[OF assms(1)]
  from "0.prems" obtain v where v: "vis p = Some v" by auto
  have "v = None"
  proof (cases v)
    case (Some c)
    with v T(4)[of p c] "0.hyps" show ?thesis by simp
  qed simp
  with v T(3)[of p] have ps: "p = s" "vis p = Some None" by auto
  then have "reconstruct vis (Some p) acc = Some (acc @ [p])"
    by (simp add: reconstruct_Some reconstruct_None dict_get_def)
  with ps "0.hyps" show ?case by (intro exI[of _ "[p]"]) simp
next
  case (Suc n)
  note T = bfs_treeD[OF assms(1)]
  from Suc.prems obtain v where v: "vis p = Some v" by auto
  have "v \<noteq> None"
  proof
    assume "v = None"
    with v T(3)[of p] T(2) Suc.hyps(2) show False by simp
  qed
  then obtain c where c: "vis p = Some (Some c)" using v by auto
  from T(4)[OF c] have f: "passable w h g0 p" "vis c \<noteq> None" "adjacent c p" "l p = Suc (l c)"
    by auto
  with Suc.hyps(2) have "n = l c" by simp
  from Suc.hyps(1)[OF this f(2), of "acc @ [p]"] obtain cs where
    cs: "reconstruct vis (Some c) (acc @ [p]) = Some ((acc @ [p]) @ cs)"
    "length cs = Suc (l c)" "hd cs = c" "last cs = s" "is_walk w h g0 (rev cs)"
    "\<forall>q \<in> set cs. vis q \<noteq> None"
    by blast
  from cs(2) have ne: "cs \<noteq> []" by auto
  have "reconstruct vis (Some p) acc = Some (acc @ p # cs)"
    using c cs(1) by (simp add: reconstruct_Some[of vis p] dict_get_def)
  moreover have "is_walk w h g0 (rev (p # cs))"
    using cs(3,5) f ne by (simp add: is_walk_snoc last_rev)
  ultimately show ?case
    using cs(2,4,6) f(4) ne Suc.prems by (intro exI[of _ "p # cs"]) simp
qed

lemma mark_path_ok:
  assumes "wf_grid w h g" "\<forall>p \<in> set ps. p \<noteq> s \<and> p \<noteq> e \<longrightarrow> in_bounds w h p"
  shows "\<exists>g'. mark_path s e ps g = Inr g' \<and> wf_grid w h g' \<and>
           (\<forall>q. in_bounds w h q \<longrightarrow>
              cell g' q = (if q \<in> set ps \<and> q \<noteq> s \<and> q \<noteq> e then OnPath else cell g q))"
  using assms
proof (induction ps arbitrary: g)
  case Nil
  then show ?case by simp
next
  case (Cons p ps)
  obtain x y where p: "p = (x, y)" by (cases p)
  show ?case
  proof (cases "p \<noteq> s \<and> p \<noteq> e")
    case True
    with Cons.prems have ib: "in_bounds w h p" by simp
    from Cons.prems have rest: "\<forall>p \<in> set ps. p \<noteq> s \<and> p \<noteq> e \<longrightarrow> in_bounds w h p" by simp
    from Cons.IH[OF wf_grid_put[OF Cons.prems(1)] rest, of p OnPath] obtain g' where
      g': "mark_path s e ps (put g p OnPath) = Inr g'" "wf_grid w h g'"
      "\<forall>q. in_bounds w h q \<longrightarrow>
         cell g' q = (if q \<in> set ps \<and> q \<noteq> s \<and> q \<noteq> e then OnPath else cell (put g p OnPath) q)"
      by blast
    have "mark_path s e (p # ps) g = Inr g'"
      using True g'(1) grid_set_in_bounds[OF Cons.prems(1), of x y OnPath] ib p by simp
    moreover have "cell g' q = (if q \<in> set (p # ps) \<and> q \<noteq> s \<and> q \<noteq> e then OnPath else cell g q)"
      if q: "in_bounds w h q" for q
      using g'(3)[rule_format, OF q] cell_put[OF Cons.prems(1) ib q, of OnPath] True by auto
    ultimately show ?thesis using g'(2) by blast
  next
    case False
    from Cons.prems have rest: "\<forall>p \<in> set ps. p \<noteq> s \<and> p \<noteq> e \<longrightarrow> in_bounds w h p" by simp
    from Cons.IH[OF Cons.prems(1) rest] obtain g' where
      g': "mark_path s e ps g = Inr g'" "wf_grid w h g'"
      "\<forall>q. in_bounds w h q \<longrightarrow>
         cell g' q = (if q \<in> set ps \<and> q \<noteq> s \<and> q \<noteq> e then OnPath else cell g q)"
      by blast
    have "mark_path s e (p # ps) g = Inr g'"
      using False g'(1) p by auto
    moreover have "cell g' q = (if q \<in> set (p # ps) \<and> q \<noteq> s \<and> q \<noteq> e then OnPath else cell g q)"
      if q: "in_bounds w h q" for q
      using g'(3)[rule_format, OF q] False by auto
    ultimately show ?thesis using g'(2) by blast
  qed
qed

lemma bfs_tree_visited_passable:
  assumes "bfs_tree w h g0 s l vis" "vis p \<noteq> None" "p \<noteq> s"
  shows "passable w h g0 p"
proof -
  note T = bfs_treeD[OF assms(1)]
  from assms(2) obtain v where v: "vis p = Some v" by auto
  with T(3)[of p] assms(3) obtain c where "vis p = Some (Some c)" by (cases v) auto
  from T(4)[OF this] show ?thesis by simp
qed

lemma solve_runD:
  assumes "solve_run m l vis g1 cs g'"
  shows
    "bfs_loop (width m) (height m) (end_pos m) [start_pos m] [start_pos m \<mapsto> None] (maze m)
       = Inr (vis, g1)"
    "bfs_tree (width m) (height m) (maze m) (start_pos m) l vis"
    "bfs_marks (width m) (height m) (maze m) (start_pos m) vis g1"
    "vis (end_pos m) = None \<Longrightarrow>
       \<forall>n. \<not> reach (width m) (height m) (maze m) (start_pos m) n (end_pos m)"
    "\<And>nb. start_pos m \<noteq> end_pos m \<Longrightarrow> adjacent (start_pos m) nb
       \<Longrightarrow> passable (width m) (height m) (maze m) nb \<Longrightarrow> vis nb \<noteq> None"
    "reconstruct vis (Some (end_pos m)) [] = Some cs"
    "vis (end_pos m) = None \<Longrightarrow> cs = [end_pos m]"
    "vis (end_pos m) \<noteq> None \<Longrightarrow>
       length cs = Suc (l (end_pos m)) \<and> hd cs = end_pos m \<and> last cs = start_pos m \<and>
       is_walk (width m) (height m) (maze m) (rev cs) \<and> (\<forall>q \<in> set cs. vis q \<noteq> None)"
    "\<And>q. q \<in> set cs \<Longrightarrow> q \<noteq> end_pos m \<Longrightarrow> vis q \<noteq> None"
    "mark_path (start_pos m) (end_pos m) cs g1 = Inr g'"
    "wf_grid (width m) (height m) g'"
    "\<And>q. in_bounds (width m) (height m) q \<Longrightarrow>
       cell g' q = (if q \<in> set cs \<and> q \<noteq> start_pos m \<and> q \<noteq> end_pos m then OnPath
                    else cell g1 q)"
    "solve_sequential m = Some (Inr (rev cs, m\<lparr>maze := g'\<rparr>))"
  using assms unfolding solve_run_def by blast+

lemma solve_sequential_run:
  assumes wf: "wf_maze m"
  shows "\<exists>l vis g1 cs g'. solve_run m l vis g1 cs g'"
proof -
  define w h s e g0 where "w = width m" and "h = height m" and "s = start_pos m"
    and "e = end_pos m" and "g0 = maze m"
  from wf have wfg: "wf_grid w h g0" by (simp add: wf_maze_def w_def h_def g0_def)
  note inv0 = bfs_inv_init[OF wfg, of s]
  from bfs_loop_inv[OF inv0, of e] obtain vis g1 l where
    run: "bfs_loop w h e [s] [s \<mapsto> None] g0 = Inr (vis, g1)"
    and tree: "bfs_tree w h g0 s l vis" and marks: "bfs_marks w h g0 s vis g1"
    and complete: "vis e = None \<longrightarrow> (\<forall>n. \<not> reach w h g0 s n e)"
    by (elim exE conjE) (rule that; assumption)
  have expanded: "vis nb \<noteq> None" if "s \<noteq> e" "adjacent s nb" "passable w h g0 nb" for nb
  proof -
    from explore_all_inv[OF inv0] obtain queue' vis' g' l' where
      r: "explore w h s directions4 [] [s \<mapsto> None] g0 = Inr (queue', vis', g')"
      "bfs_inv w h g0 s l' queue' vis' g'"
      "\<forall>nb. adjacent s nb \<and> passable w h g0 nb \<longrightarrow> vis' nb \<noteq> None"
      by (elim exE conjE) (rule that; assumption)
    from bfs_loop_inv[OF r(2), of e] obtain vis'' g'' where
      f: "bfs_loop w h e queue' vis' g' = Inr (vis'', g'')"
      "\<forall>p. vis' p \<noteq> None \<longrightarrow> vis'' p \<noteq> None"
      by (elim exE conjE) (rule that; assumption)
    from that(1) r(1) f(1) have "bfs_loop w h e [s] [s \<mapsto> None] g0 = Inr (vis'', g'')"
      by simp
    with run have "vis'' = vis" by simp
    with f(2)[rule_format, of nb] r(3)[rule_format, of nb] that show ?thesis by simp
  qed
  have "\<exists>cs. reconstruct vis (Some e) [] = Some cs \<and> (vis e = None \<longrightarrow> cs = [e]) \<and>
          (vis e \<noteq> None \<longrightarrow> length cs = Suc (l e) \<and> hd cs = e \<and> last cs = s \<and>
             is_walk w h g0 (rev cs) \<and> (\<forall>q \<in> set cs. vis q \<noteq> None))"
  proof (cases "vis e = None")
    case True
    then have "reconstruct vis (Some e) [] = Some [e]"
      by (simp add: reconstruct_Some reconstruct_None dict_get_def)
    with True show ?thesis by simp
  next
    case False
    from reconstruct_chain[OF tree False, of "[]"] False show ?thesis by auto
  qed
  then obtain cs where rec: "reconstruct vis (Some e) [] = Some cs"
    and cs_none: "vis e = None \<longrightarrow> cs = [e]"
    and cs_some: "vis e \<noteq> None \<longrightarrow> length cs = Suc (l e) \<and> hd cs = e \<and> last cs = s \<and>
             is_walk w h g0 (rev cs) \<and> (\<forall>q \<in> set cs. vis q \<noteq> None)"
    by (elim exE conjE) (rule that; assumption)
  have inb: "\<forall>p \<in> set cs. p \<noteq> s \<and> p \<noteq> e \<longrightarrow> in_bounds w h p"
  proof (intro ballI impI)
    fix p assume p: "p \<in> set cs" "p \<noteq> s \<and> p \<noteq> e"
    with cs_none cs_some have "vis p \<noteq> None" by (cases "vis e = None") auto
    from bfs_tree_visited_passable[OF tree this] p show "in_bounds w h p"
      by (simp add: passable_def)
  qed
  from mark_path_ok[OF bfs_marksD(1)[OF marks] inb] obtain g' where
    mp: "mark_path s e cs g1 = Inr g'" "wf_grid w h g'"
    "\<forall>q. in_bounds w h q \<longrightarrow>
       cell g' q = (if q \<in> set cs \<and> q \<noteq> s \<and> q \<noteq> e then OnPath else cell g1 q)"
    by (elim exE conjE) (rule that; assumption)
  note defs = w_def h_def s_def e_def g0_def
  have sol: "solve_sequential m = Some (Inr (rev cs, m\<lparr>maze := g'\<rparr>))"
    using run rec mp(1) by (simp add: solve_sequential_def defs)
  have "solve_run m l vis g1 cs g'"
    unfolding solve_run_def
  proof (intro conjI allI impI)
    show "bfs_loop (width m) (height m) (end_pos m) [start_pos m] [start_pos m \<mapsto> None] (maze m)
       = Inr (vis, g1)"
      by (rule run[unfolded defs])
    show "bfs_tree (width m) (height m) (maze m) (start_pos m) l vis"
      by (rule tree[unfolded defs])
    show "bfs_marks (width m) (height m) (maze m) (start_pos m) vis g1"
      by (rule marks[unfolded defs])
    show "\<not> reach (width m) (height m) (maze m) (start_pos m) n (end_pos m)"
      if "vis (end_pos m) = None" for n
      using complete[unfolded defs] that by simp
    show "vis nb \<noteq> None"
      if "start_pos m \<noteq> end_pos m \<and> adjacent (start_pos m) nb
          \<and> passable (width m) (height m) (maze m) nb" for nb
      using expanded[unfolded defs, of nb] that by simp
    show "reconstruct vis (Some (end_pos m)) [] = Some cs"
      by (rule rec[unfolded defs])
    show "cs = [end_pos m]" if "vis (end_pos m) = None"
      using cs_none[unfolded defs] that by simp
    show "length cs = Suc (l (end_pos m))" "hd cs = end_pos m" "last cs = start_pos m"
      "is_walk (width m) (height m) (maze m) (rev cs)" "\<forall>q \<in> set cs. vis q \<noteq> None"
      if "vis (end_pos m) \<noteq> None"
      using cs_some[unfolded defs] that by simp_all
    show "vis q \<noteq> None" if "q \<in> set cs \<and> q \<noteq> end_pos m" for q
      using cs_none[unfolded defs] cs_some[unfolded defs] that
      by (cases "vis (end_pos m) = None") auto
    show "mark_path (start_pos m) (end_pos m) cs g1 = Inr g'"
      by (rule mp(1)[unfolded defs])
    show "wf_grid (width m) (height m) g'"
      by (rule mp(2)[unfolded defs])
    show "cell g' q = (if q \<in> set cs \<and> q \<noteq> start_pos m \<and> q \<noteq> end_pos m then OnPath
                    else cell g1 q)"
      if "in_bounds (width m) (height m) q" for q
      using mp(3)[unfolded defs, rule_format, OF that] .
    show "solve_sequential m = Some (Inr (rev cs, m\<lparr>maze := g'\<rparr>))"
      by (rule sol)
  qed
  then show ?thesis by blast
qed

lemma explore_nothing:
  assumes "wf_grid w h g"
    and "\<forall>d \<in> set ds. in_bounds w h (fst c + fst d, snd c + snd d)
           \<longrightarrow> cell g (fst c + fst d, snd c + snd d) \<noteq> Passage"
  shows "explore w h c ds queue vis g = Inr (queue, vis, g)"
  using assms(2)
proof (induction ds)
  case Nil
  then show ?case by simp
next
  case (Cons d ds)
  obtain dx dy where d: "d = (dx, dy)" by (cases d)
  let ?nb = "(fst c + dx, snd c + dy)"
  have bounds: "(0 \<le> fst c + dx \<and> fst c + dx < h \<and> 0 \<le> snd c + dy \<and> snd c + dy < w)
                  = in_bounds w h ?nb"
    by (simp add: in_bounds_def)
  from Cons.prems have rest: "\<forall>d \<in> set ds. in_bounds w h (fst c + fst d, snd c + snd d)
           \<longrightarrow> cell g (fst c + fst d, snd c + snd d) \<noteq> Passage" by simp
  have "explore w h c (d # ds) queue vis g = explore w h c ds queue vis g"
  proof (cases "in_bounds w h ?nb")
    case True
    with Cons.prems d have "cell g ?nb \<noteq> Passage" by simp
    with True grid_get_in_bounds[OF assms(1) True] show ?thesis
      by (simp add: d Let_def bounds)
  next
    case False
    then show ?thesis by (simp add: d Let_def bounds)
  qed
  with Cons.IH[OF rest] show ?case by simp
qed

section \<open>The reference search computes distances\<close>

lemma neighbours4_adjacent: "q \<in> set (neighbours4 p) \<longleftrightarrow> adjacent p q"
proof
  assume "q \<in> set (neighbours4 p)"
  then obtain d where "d \<in> set directions4" "q = (fst p + fst d, snd p + snd d)"
    by (auto simp: neighbours4_def)
  with adjacent_directions4[of "fst d" "snd d" p] show "adjacent p q" by simp
next
  assume "adjacent p q"
  from adjacent_cases[OF this] show "q \<in> set (neighbours4 p)"
    by (auto simp: neighbours4_def)
qed

lemma reach_zero_iff: "reach w h g s 0 p \<longleftrightarrow> p = s"
  by (auto elim: reach_zeroE intro: reach_start)

lemma ref_layers_correct:
  "set (fst (ref_layers w h g s n)) = {p. reach w h g s n p \<and> (\<forall>k<n. \<not> reach w h g s k p)} \<and>
   set (snd (ref_layers w h g s n)) = {p. \<exists>k\<le>n. reach w h g s k p}"
proof (induction n)
  case 0
  show ?case by (auto simp: reach_zero_iff)
next
  case (Suc n)
  obtain frontier seen where fs: "ref_layers w h g s n = (frontier, seen)"
    by (cases "ref_layers w h g s n")
  with Suc have fr: "set frontier = {p. reach w h g s n p \<and> (\<forall>k<n. \<not> reach w h g s k p)}"
    and sn: "set seen = {p. \<exists>k\<le>n. reach w h g s k p}" by simp_all
  let ?new = "{p. passable w h g p \<and> p \<notin> set seen \<and> (\<exists>q \<in> set frontier. adjacent q p)}"
  have new: "set (fst (ref_layers w h g s (Suc n))) = ?new"
    by (auto simp: fs neighbours4_adjacent Let_def)
  have seen': "set (snd (ref_layers w h g s (Suc n))) = set seen \<union> ?new"
    by (auto simp: fs neighbours4_adjacent Let_def)
  have eq: "?new = {p. reach w h g s (Suc n) p \<and> (\<forall>k<Suc n. \<not> reach w h g s k p)}"
  proof (intro set_eqI iffI; clarify)
    fix p q assume p: "passable w h g p" "p \<notin> set seen" "q \<in> set frontier" "adjacent q p"
    from p(3) fr have "reach w h g s n q" by simp
    from reach_step[OF this p(4,1)] have "reach w h g s (Suc n) p" .
    moreover from p(2) sn have "\<forall>k<Suc n. \<not> reach w h g s k p" by (auto simp: less_Suc_eq_le)
    ultimately show "reach w h g s (Suc n) p \<and> (\<forall>k<Suc n. \<not> reach w h g s k p)" by simp
  next
    fix p assume r: "reach w h g s (Suc n) p" and m: "\<forall>k<Suc n. \<not> reach w h g s k p"
    from r obtain q where q: "reach w h g s n q" "adjacent q p" "passable w h g p"
      by (auto elim: reach_SucE)
    have "\<not> reach w h g s k q" if "k < n" for k
    proof
      assume "reach w h g s k q"
      from reach_step[OF this q(2,3)] m that show False by auto
    qed
    with q(1) fr have "q \<in> set frontier" by simp
    moreover from m sn have "p \<notin> set seen" by (auto simp: less_Suc_eq_le)
    ultimately show "passable w h g p \<and> p \<notin> set seen \<and> (\<exists>q \<in> set frontier. adjacent q p)"
      using q by blast
  qed
  have "set seen \<union> {p. reach w h g s (Suc n) p \<and> (\<forall>k<Suc n. \<not> reach w h g s k p)}
          = {p. \<exists>k\<le>Suc n. reach w h g s k p}"
    unfolding sn by (auto simp: le_Suc_eq less_Suc_eq_le)
  with new seen' eq show ?case by simp
qed

lemma bfs_layer_iff:
  "p \<in> set (bfs_layer m n) \<longleftrightarrow>
     reach (width m) (height m) (maze m) (start_pos m) n p \<and>
     (\<forall>k<n. \<not> reach (width m) (height m) (maze m) (start_pos m) k p)"
  using ref_layers_correct[of "width m" "height m" "maze m" "start_pos m" n]
  by (simp add: bfs_layer_def)

section \<open>The carving loop keeps its invariant\<close>

declare carve_loop.simps [simp del] carve_pushes.simps [simp del]

lemma carve_loop_Nil: "carve_loop rng w h (k, dirs, g, []) = Inr g"
  by (simp add: carve_loop.simps)

lemma carve_pushes_Nil: "carve_pushes rng w h (k, dirs, g, []) = []"
  by (simp add: carve_pushes.simps)

lemma interior_in_bounds: "interior w h p \<Longrightarrow> in_bounds w h p"
  by (auto simp: interior_def in_bounds_def)

lemma border_iff: "in_bounds w h p \<Longrightarrow> on_border w h p \<longleftrightarrow> \<not> interior w h p"
  by (auto simp: interior_def in_bounds_def on_border_def)

lemma set_shuffle_from:
  "i < length xs \<Longrightarrow> set (fst (shuffle_from rng k i xs)) = set xs"
proof (induction i arbitrary: k xs)
  case 0
  then show ?case by simp
next
  case (Suc i)
  let ?j = "rng k mod Suc (Suc i)"
  let ?ys = "xs[Suc i := xs ! ?j, ?j := xs ! Suc i]"
  have "?j < Suc (Suc i)" by simp
  with Suc.prems have j: "?j < length xs" by linarith
  from Suc.prems j have "set ?ys = set xs" by (simp add: set_swap)
  moreover have "set (fst (shuffle_from rng (Suc k) i ?ys)) = set ?ys"
    using Suc.prems by (intro Suc.IH) simp
  ultimately show ?case by (simp add: Let_def)
qed

lemma set_shuffle: "set (fst (shuffle rng k xs)) = set xs"
proof (cases xs)
  case Nil
  then show ?thesis by (simp add: shuffle_def)
next
  case (Cons x xs')
  then show ?thesis unfolding shuffle_def by (intro set_shuffle_from) simp
qed

lemma reset_row_ok:
  assumes "wf_grid w h g" "0 \<le> i" "i < h" "\<forall>j \<in> set js. 0 \<le> j \<and> j < w"
  shows "\<exists>g'. reset_row g i js = Inr g' \<and> wf_grid w h g' \<and>
           (\<forall>q. in_bounds w h q \<longrightarrow>
              cell g' q = (if fst q = i \<and> snd q \<in> set js then Wall else cell g q))"
  using assms(1,4)
proof (induction js arbitrary: g)
  case Nil
  then show ?case by simp
next
  case (Cons j js)
  from Cons.prems assms(2,3) have ib: "in_bounds w h (i, j)" by (simp add: in_bounds_def)
  from Cons.prems have rest: "\<forall>j \<in> set js. 0 \<le> j \<and> j < w" by simp
  from Cons.IH[OF wf_grid_put[OF Cons.prems(1)] rest, of "(i, j)" Wall] obtain g' where
    g': "reset_row (put g (i, j) Wall) i js = Inr g'" "wf_grid w h g'"
    "\<forall>q. in_bounds w h q \<longrightarrow>
       cell g' q = (if fst q = i \<and> snd q \<in> set js then Wall else cell (put g (i, j) Wall) q)"
    by blast
  have "reset_row g i (j # js) = Inr g'"
    using g'(1) grid_set_in_bounds[OF Cons.prems(1) ib, of Wall] by simp
  moreover have "cell g' q = (if fst q = i \<and> snd q \<in> set (j # js) then Wall else cell g q)"
    if q: "in_bounds w h q" for q
    using g'(3)[rule_format, OF q] cell_put[OF Cons.prems(1) ib q, of Wall]
    by (auto simp: prod_eq_iff)
  ultimately show ?case using g'(2) by blast
qed

lemma reset_grid_ok:
  assumes "wf_grid w h g" "\<forall>i \<in> set rows. 0 \<le> i \<and> i < h" "\<forall>j \<in> set js. 0 \<le> j \<and> j < w"
  shows "\<exists>g'. reset_grid g rows js = Inr g' \<and> wf_grid w h g' \<and>
           (\<forall>q. in_bounds w h q \<longrightarrow>
              cell g' q = (if fst q \<in> set rows \<and> snd q \<in> set js then Wall else cell g q))"
  using assms(1,2)
proof (induction rows arbitrary: g)
  case Nil
  then show ?case by simp
next
  case (Cons i rows)
  from Cons.prems have i: "0 \<le> i" "i < h" and rest: "\<forall>i \<in> set rows. 0 \<le> i \<and> i < h" by simp_all
  from reset_row_ok[OF Cons.prems(1) i assms(3)] obtain g1 where
    g1: "reset_row g i js = Inr g1" "wf_grid w h g1"
    "\<forall>q. in_bounds w h q \<longrightarrow>
       cell g1 q = (if fst q = i \<and> snd q \<in> set js then Wall else cell g q)"
    by blast
  from Cons.IH[OF g1(2) rest] obtain g' where
    g': "reset_grid g1 rows js = Inr g'" "wf_grid w h g'"
    "\<forall>q. in_bounds w h q \<longrightarrow>
       cell g' q = (if fst q \<in> set rows \<and> snd q \<in> set js then Wall else cell g1 q)"
    by blast
  have "reset_grid g (i # rows) js = Inr g'"
    using g1(1) g'(1) by simp
  moreover have "cell g' q = (if fst q \<in> set (i # rows) \<and> snd q \<in> set js then Wall else cell g q)"
    if q: "in_bounds w h q" for q
    using g'(3)[rule_format, OF q] g1(3)[rule_format, OF q] by auto
  ultimately show ?case using g'(2) by blast
qed

lemma set_py_range: "set (py_range n) = {0..<n}"
proof (intro set_eqI iffI)
  fix x assume "x \<in> set (py_range n)"
  then show "x \<in> {0..<n}" by (auto simp: py_range_def)
next
  fix x assume "x \<in> {0..<n}"
  then have "nat x \<in> set [0..<nat n]" "int (nat x) = x" by auto
  then show "x \<in> set (py_range n)" unfolding py_range_def set_map by (metis imageI)
qed

lemma reset_all_walls:
  assumes "wf_grid w h g"
  shows "\<exists>g'. reset_grid g (py_range h) (py_range w) = Inr g' \<and> wf_grid w h g' \<and>
           (\<forall>q. in_bounds w h q \<longrightarrow> cell g' q = Wall)"
proof -
  have "\<forall>i \<in> set (py_range h). 0 \<le> i \<and> i < h" "\<forall>j \<in> set (py_range w). 0 \<le> j \<and> j < w"
    by (simp_all add: set_py_range)
  from reset_grid_ok[OF assms this] obtain g' where
    g': "reset_grid g (py_range h) (py_range w) = Inr g'" "wf_grid w h g'"
    "\<forall>q. in_bounds w h q \<longrightarrow>
       cell g' q = (if fst q \<in> set (py_range h) \<and> snd q \<in> set (py_range w) then Wall
                    else cell g q)"
    by blast
  have "cell g' q = Wall" if "in_bounds w h q" for q
    using g'(3)[rule_format, OF that] that by (simp add: set_py_range in_bounds_def)
  with g'(1,2) show ?thesis by blast
qed

lemma find_neighbors_ok:
  assumes "wf_grid w h g"
  shows "\<exists>ns. find_neighbors w h cur ds g acc = Inr ns \<and>
           (\<forall>n \<in> set ns. n \<in> set acc \<or>
              (\<exists>d \<in> set ds. n = (fst cur + fst d, snd cur + snd d, fst d div 2, snd d div 2) \<and>
                 interior w h (fst cur + fst d, snd cur + snd d) \<and>
                 cell g (fst cur + fst d, snd cur + snd d) = Wall))"
proof (induction ds arbitrary: acc)
  case Nil
  then show ?case by simp
next
  case (Cons d ds)
  obtain dx dy where d: "d = (dx, dy)" by (cases d)
  let ?nb = "(fst cur + dx, snd cur + dy)"
  have guard: "(0 < fst cur + dx \<and> fst cur + dx < h - 1 \<and> 0 < snd cur + dy \<and> snd cur + dy < w - 1)
                 = interior w h ?nb"
    by (simp add: interior_def)
  show ?case
  proof (cases "interior w h ?nb \<and> cell g ?nb = Wall")
    case True
    then have ib: "in_bounds w h ?nb" by (simp add: interior_in_bounds)
    have eq: "find_neighbors w h cur (d # ds) g acc
        = find_neighbors w h cur ds g (acc @ [(fst cur + dx, snd cur + dy, dx div 2, dy div 2)])"
      using True grid_get_in_bounds[OF assms ib] by (simp add: d Let_def guard)
    from Cons.IH[of "acc @ [(fst cur + dx, snd cur + dy, dx div 2, dy div 2)]"] obtain ns where
      ns: "find_neighbors w h cur ds g (acc @ [(fst cur + dx, snd cur + dy, dx div 2, dy div 2)])
            = Inr ns"
      "\<forall>n \<in> set ns. n \<in> set (acc @ [(fst cur + dx, snd cur + dy, dx div 2, dy div 2)]) \<or>
              (\<exists>d \<in> set ds. n = (fst cur + fst d, snd cur + snd d, fst d div 2, snd d div 2) \<and>
                 interior w h (fst cur + fst d, snd cur + snd d) \<and>
                 cell g (fst cur + fst d, snd cur + snd d) = Wall)"
      by blast
    have "n \<in> set acc \<or>
              (\<exists>d' \<in> set (d # ds). n = (fst cur + fst d', snd cur + snd d', fst d' div 2, snd d' div 2) \<and>
                 interior w h (fst cur + fst d', snd cur + snd d') \<and>
                 cell g (fst cur + fst d', snd cur + snd d') = Wall)"
      if "n \<in> set ns" for n
      using ns(2)[rule_format, OF that] True d by auto
    with eq ns(1) show ?thesis by auto
  next
    case False
    have eq: "find_neighbors w h cur (d # ds) g acc = find_neighbors w h cur ds g acc"
    proof (cases "interior w h ?nb")
      case True
      with False have "cell g ?nb \<noteq> Wall" by simp
      with True grid_get_in_bounds[OF assms interior_in_bounds[OF True]] show ?thesis
        by (simp add: d Let_def guard)
    next
      case False
      then show ?thesis by (simp add: d Let_def guard)
    qed
    from Cons.IH[of acc] obtain ns where
      ns: "find_neighbors w h cur ds g acc = Inr ns"
      "\<forall>n \<in> set ns. n \<in> set acc \<or>
              (\<exists>d \<in> set ds. n = (fst cur + fst d, snd cur + snd d, fst d div 2, snd d div 2) \<and>
                 interior w h (fst cur + fst d, snd cur + snd d) \<and>
                 cell g (fst cur + fst d, snd cur + snd d) = Wall)"
      by blast
    have "n \<in> set acc \<or>
              (\<exists>d' \<in> set (d # ds). n = (fst cur + fst d', snd cur + snd d', fst d' div 2, snd d' div 2) \<and>
                 interior w h (fst cur + fst d', snd cur + snd d') \<and>
                 cell g (fst cur + fst d', snd cur + snd d') = Wall)"
      if "n \<in> set ns" for n
      using ns(2)[rule_format, OF that] by auto
    with eq ns(1) show ?thesis by auto
  qed
qed

lemma wall_between_interior:
  assumes "interior w h c" "interior w h (fst c + fst d, snd c + snd d)"
    "d \<in> set lattice_directions"
  shows "interior w h (fst c + fst d div 2, snd c + snd d div 2)"
  using assms by (auto simp: interior_def lattice_directions_def)

lemma lattice_step:
  assumes "lattice_cell c" "d \<in> set lattice_directions"
  shows "lattice_cell (fst c + fst d, snd c + snd d)"
  using assms by (auto simp: lattice_cell_def lattice_directions_def)

lemma carve_step_ok:
  assumes inv: "carve_inv w h (k, dirs, g, stack)" and ne: "stack \<noteq> []"
  shows "\<exists>k' dirs' g' stack'.
           carve_step rng w h (k, dirs, g, stack) = Inr (k', dirs', g', stack') \<and>
           carve_inv w h (k', dirs', g', stack') \<and>
           ((g' = g \<and> stack' = butlast stack) \<or>
            (\<exists>nxt wl. stack' = stack @ [nxt] \<and> interior w h nxt \<and> lattice_cell nxt \<and>
               interior w h wl \<and> cell g nxt = Wall \<and>
               g' = put (put g wl Passage) nxt Passage))"
proof -
  from inv have wf: "wf_grid w h g" and dirs: "set dirs \<subseteq> set lattice_directions"
    and st: "\<forall>p \<in> set stack. interior w h p \<and> lattice_cell p"
    and bw: "\<forall>p. in_bounds w h p \<and> \<not> interior w h p \<longrightarrow> cell g p = Wall"
    by (simp_all add: carve_inv_def)
  obtain ds k1 where sh: "shuffle rng k dirs = (ds, k1)" by (cases "shuffle rng k dirs")
  with set_shuffle[of rng k dirs] dirs have ds: "set ds \<subseteq> set lattice_directions" by simp
  let ?cur = "last stack"
  from ne st have cur: "interior w h ?cur" "lattice_cell ?cur" by simp_all
  from find_neighbors_ok[OF wf, of ?cur ds "[]"] obtain ns where
    ns: "find_neighbors w h ?cur ds g [] = Inr ns"
    "\<forall>n \<in> set ns. \<exists>d \<in> set ds.
        n = (fst ?cur + fst d, snd ?cur + snd d, fst d div 2, snd d div 2) \<and>
        interior w h (fst ?cur + fst d, snd ?cur + snd d) \<and>
        cell g (fst ?cur + fst d, snd ?cur + snd d) = Wall"
    by auto
  show ?thesis
  proof (cases ns)
    case Nil
    have "carve_step rng w h (k, dirs, g, stack) = Inr (k1, ds, g, butlast stack)"
      using sh ns(1) Nil by (simp add: carve_step_def Let_def)
    moreover have "carve_inv w h (k1, ds, g, butlast stack)"
      using wf ds st bw by (auto simp: carve_inv_def dest: in_set_butlastD)
    ultimately show ?thesis by blast
  next
    case (Cons n rest)
    with ns(2) obtain d where d: "d \<in> set ds"
      "n = (fst ?cur + fst d, snd ?cur + snd d, fst d div 2, snd d div 2)"
      "interior w h (fst ?cur + fst d, snd ?cur + snd d)"
      "cell g (fst ?cur + fst d, snd ?cur + snd d) = Wall"
      by auto
    let ?nxt = "(fst ?cur + fst d, snd ?cur + snd d)"
    let ?wl = "(fst ?cur + fst d div 2, snd ?cur + snd d div 2)"
    let ?g1 = "put g ?wl Passage"
    let ?g2 = "put ?g1 ?nxt Passage"
    from d(1) ds have dl: "d \<in> set lattice_directions" by auto
    from wall_between_interior[OF cur(1) d(3) dl] have wl: "interior w h ?wl" .
    from lattice_step[OF cur(2) dl] have nl: "lattice_cell ?nxt" .
    note wlb = interior_in_bounds[OF wl] and nxb = interior_in_bounds[OF d(3)]
    have s1: "grid_set g (fst ?cur + fst d div 2) (snd ?cur + snd d div 2) Passage = Inr ?g1"
      by (rule grid_set_in_bounds[OF wf wlb])
    have wf1: "wf_grid w h ?g1" by (rule wf_grid_put[OF wf])
    have s2: "grid_set ?g1 (fst ?cur + fst d) (snd ?cur + snd d) Passage = Inr ?g2"
      by (rule grid_set_in_bounds[OF wf1 nxb])
    have step: "carve_step rng w h (k, dirs, g, stack) = Inr (k1, ds, ?g2, stack @ [?nxt])"
      using sh ns(1) Cons d(2) s1 s2 by (simp add: carve_step_def Let_def)
    have "cell ?g2 p = Wall" if p: "in_bounds w h p \<and> \<not> interior w h p" for p
    proof -
      from p wl d(3) have "p \<noteq> ?wl" "p \<noteq> ?nxt" by auto
      with cell_put[OF wf1 nxb, of p Passage] cell_put[OF wf wlb, of p Passage] p bw
      show ?thesis by simp
    qed
    then have "carve_inv w h (k1, ds, ?g2, stack @ [?nxt])"
      using wf_grid_put[OF wf1] ds st d(3) nl by (simp add: carve_inv_def)
    with step d(3,4) nl wl show ?thesis by blast
  qed
qed

lemma carve_loop_ok:
  assumes "carve_inv w h s"
  shows "\<exists>g'. carve_loop rng w h s = Inr g' \<and> wf_grid w h g' \<and>
           (\<forall>p. in_bounds w h p \<and> \<not> interior w h p \<longrightarrow> cell g' p = Wall)"
  using assms
proof (induction rng w h s rule: carve_loop.induct)
  case (1 rng w h k dirs g stack)
  show ?case
  proof (cases "stack = []")
    case True
    with "1.prems" show ?thesis
      by (simp add: carve_inv_def carve_loop_Nil)
  next
    case False
    from carve_step_ok[OF "1.prems" False, of rng] obtain k' dirs' g' stack' where
      st: "carve_step rng w h (k, dirs, g, stack) = Inr (k', dirs', g', stack')"
      "carve_inv w h (k', dirs', g', stack')"
      by blast
    from "1.IH"[OF False st] False st(1) show ?thesis
      by (simp add: carve_loop.simps[of rng w h k dirs g stack])
  qed
qed

lemma carve_pushes_ok:
  assumes "carve_inv w h (k, dirs, g, stack)"
  shows "distinct (carve_pushes rng w h (k, dirs, g, stack)) \<and>
         (\<forall>p \<in> set (carve_pushes rng w h (k, dirs, g, stack)).
            interior w h p \<and> lattice_cell p \<and> cell g p = Wall)"
  using assms
proof (induction rng w h "(k, dirs, g, stack)" arbitrary: k dirs g stack
        rule: carve_pushes.induct)
  case (1 rng w h k dirs g stack)
  show ?case
  proof (cases "stack = []")
    case True
    then show ?thesis by (simp add: carve_pushes_Nil)
  next
    case False
    from carve_step_ok[OF "1.prems" False, of rng] obtain k' dirs' g' stack' where
      st: "carve_step rng w h (k, dirs, g, stack) = Inr (k', dirs', g', stack')"
      and inv': "carve_inv w h (k', dirs', g', stack')"
      and kind: "(g' = g \<and> stack' = butlast stack) \<or>
            (\<exists>nxt wl. stack' = stack @ [nxt] \<and> interior w h nxt \<and> lattice_cell nxt \<and>
               interior w h wl \<and> cell g nxt = Wall \<and>
               g' = put (put g wl Passage) nxt Passage)"
      by blast
    from "1.hyps"[OF False st refl refl refl inv']
    have IH: "distinct (carve_pushes rng w h (k', dirs', g', stack'))"
      "\<forall>p \<in> set (carve_pushes rng w h (k', dirs', g', stack')).
            interior w h p \<and> lattice_cell p \<and> cell g' p = Wall"
      by simp_all
    from "1.prems" have wf: "wf_grid w h g" by (simp add: carve_inv_def)
    from kind show ?thesis
    proof
      assume pop: "g' = g \<and> stack' = butlast stack"
      with False have "carve_pushes rng w h (k, dirs, g, stack)
          = carve_pushes rng w h (k', dirs', g', stack')"
        using st by (simp add: carve_pushes.simps[of rng w h k dirs g stack])
      with IH pop show ?thesis by simp
    next
      assume "\<exists>nxt wl. stack' = stack @ [nxt] \<and> interior w h nxt \<and> lattice_cell nxt \<and>
               interior w h wl \<and> cell g nxt = Wall \<and>
               g' = put (put g wl Passage) nxt Passage"
      then obtain nxt wl where push: "stack' = stack @ [nxt]" "interior w h nxt"
        "lattice_cell nxt" "interior w h wl" "cell g nxt = Wall"
        "g' = put (put g wl Passage) nxt Passage"
        by blast
      have eq: "carve_pushes rng w h (k, dirs, g, stack)
          = nxt # carve_pushes rng w h (k', dirs', g', stack')"
        using False st push(1)
        by (simp add: carve_pushes.simps[of rng w h k dirs g stack])
      note nb = interior_in_bounds[OF push(2)] and wb = interior_in_bounds[OF push(4)]
      have cells: "cell g' p = (if p = nxt \<or> p = wl then Passage else cell g p)"
        if "in_bounds w h p" for p
        using cell_put[OF wf_grid_put[OF wf] nb that, of wl Passage Passage]
          cell_put[OF wf wb that, of Passage] push(6)
        by (cases "p = nxt"; cases "p = wl"; simp)
      have old: "\<forall>p \<in> set (carve_pushes rng w h (k', dirs', g', stack')).
                   cell g p = Wall \<and> p \<noteq> nxt"
      proof
        fix p assume "p \<in> set (carve_pushes rng w h (k', dirs', g', stack'))"
        with IH(2) have "interior w h p" "cell g' p = Wall" by auto
        with cells[OF interior_in_bounds] show "cell g p = Wall \<and> p \<noteq> nxt"
          by (auto split: if_splits)
      qed
      from old IH push show ?thesis unfolding eq by auto
    qed
  qed
qed

lemma generate_maze_run:
  assumes wf: "wf_maze m0" and w: "3 \<le> width m0" and h: "3 \<le> height m0"
  shows "\<exists>g0 g2.
     reset_grid (maze m0) (py_range (height m0)) (py_range (width m0)) = Inr g0 \<and>
     wf_grid (width m0) (height m0) g0 \<and>
     (\<forall>q. in_bounds (width m0) (height m0) q \<longrightarrow> cell g0 q = Wall) \<and>
     grid_set g0 1 1 Passage = Inr (put g0 (1, 1) Passage) \<and>
     carve_inv (width m0) (height m0) (0, lattice_directions, put g0 (1, 1) Passage, [(1, 1)]) \<and>
     carve_loop rng (width m0) (height m0) (0, lattice_directions, put g0 (1, 1) Passage, [(1, 1)])
       = Inr g2 \<and>
     wf_grid (width m0) (height m0) g2 \<and>
     (\<forall>p. in_bounds (width m0) (height m0) p \<and> \<not> interior (width m0) (height m0) p
        \<longrightarrow> cell g2 p = Wall) \<and>
     generate_maze rng m0 =
       Inr (m0\<lparr>maze := put (put g2 (0, 1) Passage) (height m0 - 1, width m0 - 2) Passage,
              start_pos := (0, 1), end_pos := (height m0 - 1, width m0 - 2)\<rparr>)"
proof -
  let ?w = "width m0" and ?h = "height m0"
  from wf have wfg: "wf_grid ?w ?h (maze m0)" by (simp add: wf_maze_def)
  from reset_all_walls[OF wfg] obtain g0 where
    g0: "reset_grid (maze m0) (py_range ?h) (py_range ?w) = Inr g0" "wf_grid ?w ?h g0"
    "\<forall>q. in_bounds ?w ?h q \<longrightarrow> cell g0 q = Wall"
    by blast
  have i11: "interior ?w ?h (1, 1)" using w h by (simp add: interior_def)
  note b11 = interior_in_bounds[OF i11]
  let ?g1 = "put g0 (1, 1) Passage"
  have s1: "grid_set g0 1 1 Passage = Inr ?g1"
    by (rule grid_set_in_bounds[OF g0(2) b11])
  have wf1: "wf_grid ?w ?h ?g1" by (rule wf_grid_put[OF g0(2)])
  have "cell ?g1 p = Wall" if p: "in_bounds ?w ?h p \<and> \<not> interior ?w ?h p" for p
  proof -
    from p i11 have "p \<noteq> (1, 1)" by auto
    with cell_put[OF g0(2) b11, of p Passage] p g0(3) show ?thesis by simp
  qed
  with wf1 i11 have inv: "carve_inv ?w ?h (0, lattice_directions, ?g1, [(1, 1)])"
    by (simp add: carve_inv_def lattice_cell_def)
  from carve_loop_ok[OF inv, of rng] obtain g2 where
    g2: "carve_loop rng ?w ?h (0, lattice_directions, ?g1, [(1, 1)]) = Inr g2"
    "wf_grid ?w ?h g2"
    "\<forall>p. in_bounds ?w ?h p \<and> \<not> interior ?w ?h p \<longrightarrow> cell g2 p = Wall"
    by blast
  have bs: "in_bounds ?w ?h (0, 1)" and be: "in_bounds ?w ?h (?h - 1, ?w - 2)"
    using w h by (simp_all add: in_bounds_def)
  let ?g3 = "put g2 (0, 1) Passage"
  have s3: "grid_set g2 0 1 Passage = Inr ?g3"
    by (rule grid_set_in_bounds[OF g2(2) bs])
  have s4: "grid_set ?g3 (?h - 1) (?w - 2) Passage = Inr (put ?g3 (?h - 1, ?w - 2) Passage)"
    by (rule grid_set_in_bounds[OF wf_grid_put[OF g2(2)] be])
  have "generate_maze rng m0 =
       Inr (m0\<lparr>maze := put ?g3 (?h - 1, ?w - 2) Passage,
              start_pos := (0, 1), end_pos := (?h - 1, ?w - 2)\<rparr>)"
    using g0(1) s1 g2(1) s3 s4 by (simp add: generate_maze_def Let_def)
  with g0 s1 inv g2 show ?thesis by blast
qed

lemma generate_maze_ok:
  assumes wf: "wf_maze m0" and w: "3 \<le> width m0" and h: "3 \<le> height m0"
  shows "\<exists>m. generate_maze rng m0 = Inr m \<and> width m = width m0 \<and> height m = height m0 \<and>
           start_pos m = (0, 1) \<and> end_pos m = (height m0 - 1, width m0 - 2) \<and> wf_maze m \<and>
           (\<forall>p. in_bounds (width m0) (height m0) p \<and> on_border (width m0) (height m0) p \<longrightarrow>
              cell (maze m) p = (if p = (0, 1) \<or> p = (height m0 - 1, width m0 - 2) then Passage
                                 else Wall))"
proof -
  let ?w = "width m0" and ?h = "height m0"
  from generate_maze_run[OF assms, of rng] obtain g2 where
    g2: "wf_grid ?w ?h g2"
    "\<forall>p. in_bounds ?w ?h p \<and> \<not> interior ?w ?h p \<longrightarrow> cell g2 p = Wall"
    and gen: "generate_maze rng m0 =
       Inr (m0\<lparr>maze := put (put g2 (0, 1) Passage) (?h - 1, ?w - 2) Passage,
              start_pos := (0, 1), end_pos := (?h - 1, ?w - 2)\<rparr>)"
    by blast
  let ?g4 = "put (put g2 (0, 1) Passage) (?h - 1, ?w - 2) Passage"
  have bs: "in_bounds ?w ?h (0, 1)" and be: "in_bounds ?w ?h (?h - 1, ?w - 2)"
    using w h by (simp_all add: in_bounds_def)
  have wf4: "wf_grid ?w ?h ?g4" by (intro wf_grid_put g2(1))
  have "cell ?g4 p = (if p = (0, 1) \<or> p = (?h - 1, ?w - 2) then Passage else Wall)"
    if p: "in_bounds ?w ?h p \<and> on_border ?w ?h p" for p
  proof -
    from p border_iff[of ?w ?h p] have "\<not> interior ?w ?h p" by blast
    with g2(2)[rule_format, of p] p have "cell g2 p = Wall" by simp
    with cell_put[OF wf_grid_put[OF g2(1)] be, of p "(0, 1)" Passage Passage]
      cell_put[OF g2(1) bs, of p Passage] p
    show ?thesis by (cases "p = (0, 1)"; cases "p = (?h - 1, ?w - 2)"; simp)
  qed
  with gen wf4 show ?thesis by (simp add: wf_maze_def)
qed

lemma solve_run_final_cell:
  assumes "solve_run m l vis g1 cs g'" "in_bounds (width m) (height m) q"
  shows "cell g' q =
           (if q \<in> set cs \<and> q \<noteq> start_pos m \<and> q \<noteq> end_pos m then OnPath
            else if vis q \<noteq> None \<and> q \<noteq> start_pos m then Visited
            else cell (maze m) q)"
  using solve_runD(12)[OF assms] bfs_marksD(2)[OF solve_runD(3)[OF assms(1)] assms(2)]
  by (cases "q = start_pos m") auto

lemma solve_run_key:
  assumes "solve_run m l vis g1 cs g'" "vis q \<noteq> None" "q \<noteq> start_pos m"
  shows "in_bounds (width m) (height m) q \<and> cell (maze m) q = Passage"
  using bfs_tree_visited_passable[OF solve_runD(2)[OF assms(1)] assms(2,3)]
  by (simp add: passable_def)

section \<open>The carving loop makes finitely many iterations\<close>

lemma carve_iterations_Nil: "carve_iterations rng w h (k, dirs, g, []) = 0"
  by (simp add: carve_iterations.simps)

lemma carve_iterations_le:
  "carve_iterations rng w h (k, dirs, g, stack)
     \<le> 2 * card (cells_with Wall g) + length stack"
proof (induction rng w h "(k, dirs, g, stack)" arbitrary: k dirs g stack
        rule: carve_iterations.induct)
  case (1 rng w h k dirs g stack)
  show ?case
  proof (cases "stack = []")
    case True
    then show ?thesis by (simp add: carve_iterations_Nil)
  next
    case False
    show ?thesis
    proof (cases "carve_step rng w h (k, dirs, g, stack)")
      case (Inl e)
      with False have "carve_iterations rng w h (k, dirs, g, stack) = 1"
        by (simp add: carve_iterations.simps[of rng w h k dirs g stack])
      moreover from False have "1 \<le> length stack" by (cases stack) auto
      ultimately show ?thesis by simp
    next
      case (Inr s')
      obtain k' dirs' g' stack' where s': "s' = (k', dirs', g', stack')"
        by (cases s') auto
      from "1.hyps"[OF False Inr[unfolded s']]
      have "carve_iterations rng w h (k', dirs', g', stack')
              \<le> 2 * card (cells_with Wall g') + length stack'" .
      moreover from carve_step_measure[OF Inr[unfolded s'] False]
      have "2 * card (cells_with Wall g') + length stack'
              < 2 * card (cells_with Wall g) + length stack" .
      ultimately show ?thesis
        using False Inr s' by (simp add: carve_iterations.simps[of rng w h k dirs g stack])
    qed
  qed
qed

lemma card_cells_with_le:
  assumes "wf_grid w h g"
  shows "card (cells_with v g) \<le> nat h * nat w"
proof -
  have "cells_with v g \<subseteq> {..<nat h} \<times> {..<nat w}"
    using assms by (auto simp: cells_with_def wf_grid_def)
  then have "card (cells_with v g) \<le> card ({..<nat h} \<times> {..<nat w})"
    by (intro card_mono) auto
  then show ?thesis by simp
qed

section \<open>Evaluation of the samples\<close>

lemmas solve_eval = solve_sequential_def directions4_def grid_get_def grid_set_def
  py_index_def reconstruct_Some reconstruct_None dict_get_def Let_def

lemmas grid_eval = wf_maze_def wf_grid_def in_bounds_def cell_def passable_def adjacent_def

lemma solve_maze3: "solve_sequential maze3 = Some (Inr (path3, maze3_solved))"
  by (simp add: maze3_def maze3_solved_def path3_def solve_eval)

lemma solve_maze3_solved:
  "solve_sequential maze3_solved = Some (Inr ([(2, 1)], maze3_solved))"
  by (simp add: maze3_solved_def solve_eval)

lemma solve_open23:
  "solve_sequential open23 = Some (Inr ([(0, 0), (1, 0)], open23_solved))"
  by (simp add: open23_def open23_solved_def solve_eval)

lemma generate_maze3: "generate_maze (const_rng 0) (Maze_init 3 3) = Inr maze3"
  unfolding maze3_def by code_simp

text \<open>
  In a 4 by 4 grid the lattice cell \<open>(1, 1)\<close> has no lattice neighbour strictly inside
  the border, whatever the order of the directions: the carving stops after one iteration.
\<close>

lemma find_neighbors_corner:
  "set ds \<subseteq> set lattice_directions \<Longrightarrow> find_neighbors 4 4 (1, 1) ds g acc = Inr acc"
proof (induction ds)
  case Nil
  then show ?case by simp
next
  case (Cons d ds)
  obtain dx dy where d: "d = (dx, dy)" by (cases d)
  from Cons.prems d have "(dx, dy) \<in> set lattice_directions" by simp
  then have "dx = 2 \<or> dx = - 2 \<or> dy = 2 \<or> dy = - 2"
    by (auto simp: lattice_directions_def)
  with Cons d show ?case by (auto simp: Let_def)
qed

lemma generate_maze4: "generate_maze rng (Maze_init 4 4) = Inr maze4"
proof -
  obtain ds k where sh: "shuffle rng 0 lattice_directions = (ds, k)"
    by (cases "shuffle rng 0 lattice_directions")
  from set_shuffle[of rng 0 lattice_directions] sh have "set ds \<subseteq> set lattice_directions"
    by simp
  note fn = find_neighbors_corner[OF this]
  have step: "carve_step rng 4 4 (0, lattice_directions, g, [(1, 1)]) = Inr (k, ds, g, [])" for g
    by (simp add: carve_step_def sh fn)
  have loop: "carve_loop rng 4 4 (0, lattice_directions, g, [(1, 1)]) = Inr g" for g
    by (simp add: carve_loop.simps[of rng 4 4 0 lattice_directions g "[(1, 1)]"] step
        carve_loop_Nil)
  show ?thesis
    unfolding generate_maze_def maze4_def
    by (simp add: Maze_init_def py_range_def loop grid_set_def py_index_def Let_def
        numeral_eq_Suc upt_rec)
qed

lemma solve_maze4: "solve_sequential maze4 = Some (Inr ([(3, 2)], maze4_solved))"
  by (simp add: maze4_def maze4_solved_def solve_eval)

section \<open>The claims\<close>

subsection \<open>C1: a generated maze is solved from entrance to exit\<close>

text \<open>
  C1 says that on every maze made by \<open>generate_maze\<close> for \<open>width, height \<ge> 3\<close>,
  \<open>solve_sequential\<close> returns a non-empty path that starts at the entrance, ends at
  the exit, moves by 4-adjacent steps and avoids walls. The code breaks this for even
  dimensions: for a 4 by 4 grid and every random source the carving reaches only
  \<open>(1, 1)\<close>, the exit \<open>(3, 2)\<close> is opened in the border with walls all around it, and
  the solver returns the one-element list \<open>[(3, 2)]\<close>, which does not start at the
  entrance \<open>(0, 1)\<close>.
\<close>

theorem generate_solve_even_dimensions:
  "generate_maze rng (Maze_init 4 4) = Inr maze4 \<and>
   solve_sequential maze4 = Some (Inr ([(3, 2)], maze4_solved)) \<and>
   start_pos maze4 = (0, 1) \<and> end_pos maze4 = (3, 2)"
  using generate_maze4 solve_maze4 by (simp add: maze4_def)

subsection \<open>C2: the returned path is a shortest path\<close>

text \<open>
  C2: on every (well-formed) grid in which some walk through passage cells leads from
  the entrance to the exit, \<open>solve_sequential\<close> returns a walk from the entrance to the
  exit that is no longer than any such walk, and its number of steps is the depth of
  the one layer of the reference breadth-first search \<open>bfs_layer\<close> that holds the
  exit.
\<close>

theorem solve_sequential_shortest:
  assumes "wf_maze m"
    and "is_walk (width m) (height m) (maze m) ps"
    and "ps \<noteq> []" and "hd ps = start_pos m" and "last ps = end_pos m"
  shows "\<exists>path m'. solve_sequential m = Some (Inr (path, m')) \<and>
           path \<noteq> [] \<and> hd path = start_pos m \<and> last path = end_pos m \<and>
           is_walk (width m) (height m) (maze m) path \<and>
           length path \<le> length ps \<and>
           (\<forall>k. end_pos m \<in> set (bfs_layer m k) \<longleftrightarrow> k = length path - 1)"
proof -
  from solve_sequential_run[OF assms(1)] obtain l vis g1 cs g' where
    run: "solve_run m l vis g1 cs g'" by blast
  note R = solve_runD[OF run]
  note T = bfs_treeD[OF R(2)]
  from reach_of_walk[OF assms(2,3)] assms(4,5)
  have r: "reach (width m) (height m) (maze m) (start_pos m) (length ps - 1) (end_pos m)"
    by simp
  with R(4) have v: "vis (end_pos m) \<noteq> None" by blast
  from R(8)[OF v] have cs: "length cs = Suc (l (end_pos m))" "hd cs = end_pos m"
    "last cs = start_pos m" "is_walk (width m) (height m) (maze m) (rev cs)"
    by simp_all
  from cs(1) have ne: "cs \<noteq> []" by auto
  from T(6)[OF v r] cs(1) assms(3) have len: "length (rev cs) \<le> length ps"
    by (cases ps) auto
  have here: "end_pos m \<in> set (bfs_layer m (l (end_pos m)))"
    unfolding bfs_layer_iff using T(5)[OF v] T(6)[OF v] by (auto simp: not_less[symmetric])
  have only: "k = l (end_pos m)" if k: "end_pos m \<in> set (bfs_layer m k)" for k
  proof (rule ccontr)
    assume "k \<noteq> l (end_pos m)"
    then consider "k < l (end_pos m)" | "l (end_pos m) < k" by linarith
    then show False
    proof cases
      case 1
      with here[unfolded bfs_layer_iff] k[unfolded bfs_layer_iff] show False by blast
    next
      case 2
      with here[unfolded bfs_layer_iff] k[unfolded bfs_layer_iff] show False by blast
    qed
  qed
  from cs(1) have depth: "length (rev cs) - 1 = l (end_pos m)" by simp
  have layer: "\<forall>k. end_pos m \<in> set (bfs_layer m k) \<longleftrightarrow> k = length (rev cs) - 1"
    unfolding depth
  proof (intro allI iffI)
    fix k
    assume "end_pos m \<in> set (bfs_layer m k)"
    then show "k = l (end_pos m)" by (rule only)
  next
    fix k
    assume "k = l (end_pos m)"
    with here show "end_pos m \<in> set (bfs_layer m k)" by simp
  qed
  from R(13) ne cs len layer show ?thesis
    by (intro exI[of _ "rev cs"] exI[of _ "m\<lparr>maze := g'\<rparr>"])
      (simp add: hd_rev last_rev)
qed

theorem solve_sequential_shortest_witness:
  "wf_maze open33 \<and>
   is_walk (width open33) (height open33) (maze open33) detour33 \<and>
   detour33 \<noteq> [] \<and> hd detour33 = start_pos open33 \<and> last detour33 = end_pos open33 \<and>
   (\<exists>path m'. solve_sequential open33 = Some (Inr (path, m')) \<and>
      path \<noteq> [] \<and> hd path = start_pos open33 \<and> last path = end_pos open33 \<and>
      is_walk (width open33) (height open33) (maze open33) path \<and>
      length path \<le> length detour33 \<and>
      (\<forall>k. end_pos open33 \<in> set (bfs_layer open33 k) \<longleftrightarrow> k = length path - 1))"
proof -
  have h1: "wf_maze open33" by (simp add: open33_def grid_eval)
  have h2: "is_walk (width open33) (height open33) (maze open33) detour33"
    by (simp add: open33_def detour33_def grid_eval)
  have h3: "detour33 \<noteq> []" by (simp add: detour33_def)
  have h4: "hd detour33 = start_pos open33" by (simp add: open33_def detour33_def)
  have h5: "last detour33 = end_pos open33" by (simp add: open33_def detour33_def)
  from h1 h2 h3 h4 h5 solve_sequential_shortest[OF h1 h2 h3 h4 h5] show ?thesis
    by (intro conjI)
qed

subsection \<open>C3: the constructor does not check the dimensions\<close>

text \<open>
  C3 says that constructing a \<open>Maze\<close> with \<open>width < 3\<close> or \<open>height < 3\<close> fails with
  \<open>InvalidDimensions\<close>. \<open>Maze.__init__\<close> has no check and no failure branch at all:
  a 2 by 2 request returns a 2 by 2 grid of walls.
\<close>

theorem Maze_init_small_succeeds:
  "Maze_init 2 2 = \<lparr> width = 2, height = 2, maze = [[Wall, Wall], [Wall, Wall]],
                      start_pos = (0, 0), end_pos = (1, 1) \<rparr>"
  by (simp add: Maze_init_def numeral_2_eq_2)

text \<open>
  C3 as amended: construction succeeds for every width and height. The object holds the
  given dimensions, a well-formed grid whose cells are all walls, the entrance
  \<open>(0, 0)\<close> and the exit \<open>(height - 1, width - 1)\<close>.
\<close>

theorem Maze_init_total:
  "width (Maze_init w h) = w \<and> height (Maze_init w h) = h \<and>
   start_pos (Maze_init w h) = (0, 0) \<and> end_pos (Maze_init w h) = (h - 1, w - 1) \<and>
   wf_maze (Maze_init w h) \<and>
   (\<forall>p. in_bounds w h p \<longrightarrow> cell (maze (Maze_init w h)) p = Wall)"
proof -
  have "cell (maze (Maze_init w h)) p = Wall" if "in_bounds w h p" for p
    using that by (simp add: Maze_init_def cell_def in_bounds_def)
  then show ?thesis by (simp add: wf_maze_init) (simp add: Maze_init_def)
qed

theorem Maze_init_total_witness:
  "width (Maze_init 2 2) = 2 \<and> height (Maze_init 2 2) = 2 \<and> wf_maze (Maze_init 2 2) \<and>
   in_bounds 2 2 (1, 1) \<and> cell (maze (Maze_init 2 2)) (1, 1) = Wall"
  using Maze_init_total[of 2 2] by (simp add: in_bounds_def)

subsection \<open>C4: solving twice\<close>

text \<open>
  C4 says that two calls of \<open>solve_sequential\<close> in a row return paths of the same
  length, the cells marked by the first call being still traversable. On the generated
  3 by 3 maze the first call returns three positions and the second call one.
\<close>

theorem solve_twice_lengths_differ:
  "generate_maze (const_rng 0) (Maze_init 3 3) = Inr maze3 \<and>
   solve_sequential maze3 = Some (Inr ([(0, 1), (1, 1), (2, 1)], maze3_solved)) \<and>
   solve_sequential maze3_solved = Some (Inr ([(2, 1)], maze3_solved))"
  using generate_maze3 solve_maze3 solve_maze3_solved by (simp add: path3_def)

text \<open>
  C4 as amended: the search enters only cells equal to \<open>0\<close>, so a second call does not
  traverse what the first call marked. For every well-formed grid with distinct
  entrance and exit, the search of a second call right after the first discovers no
  position beyond the entrance and the call changes no cell; the two calls return paths
  of the same length if and only if the search of the first call did not reach the exit.
\<close>

theorem solve_sequential_twice:
  assumes "wf_maze m" and "start_pos m \<noteq> end_pos m"
    and "solve_sequential m = Some (Inr (p1, m1))"
  shows "\<exists>vis1 g1 p2.
           bfs_loop (width m) (height m) (end_pos m) [start_pos m] [start_pos m \<mapsto> None]
             (maze m) = Inr (vis1, g1) \<and>
           bfs_loop (width m1) (height m1) (end_pos m1) [start_pos m1] [start_pos m1 \<mapsto> None]
             (maze m1) = Inr ([start_pos m1 \<mapsto> None], maze m1) \<and>
           solve_sequential m1 = Some (Inr (p2, m1)) \<and>
           (length p2 = length p1 \<longleftrightarrow> vis1 (end_pos m) = None)"
proof -
  from solve_sequential_run[OF assms(1)] obtain l vis g1 cs g' where
    run: "solve_run m l vis g1 cs g'" by blast
  note R = solve_runD[OF run]
  from R(13) assms(3) have p1: "p1 = rev cs" and m1: "m1 = m\<lparr>maze := g'\<rparr>" by simp_all
  let ?w = "width m" and ?h = "height m" and ?s = "start_pos m" and ?e = "end_pos m"
  have blocked: "cell g' (fst ?s + fst d, snd ?s + snd d) \<noteq> Passage"
    if d: "d \<in> set directions4" and ib: "in_bounds ?w ?h (fst ?s + fst d, snd ?s + snd d)" for d
  proof
    let ?nb = "(fst ?s + fst d, snd ?s + snd d)"
    assume z: "cell g' ?nb = Passage"
    from adjacent_directions4[of "fst d" "snd d" ?s] d have adj: "adjacent ?s ?nb" by simp
    then have ns: "?nb \<noteq> ?s" by (auto dest: adjacent_neq)
    from z R(12)[OF ib] have g1z: "cell g1 ?nb = Passage" by (auto split: if_splits)
    with bfs_marksD(2)[OF R(3) ib] ns have nv: "vis ?nb = None" and "cell (maze m) ?nb = Passage"
      by (auto split: if_splits)
    with ib have "passable ?w ?h (maze m) ?nb" by (simp add: passable_def)
    from R(5)[OF assms(2) adj this] nv show False by simp
  qed
  have ex: "explore ?w ?h ?s directions4 [] [?s \<mapsto> None] g' = Inr ([], [?s \<mapsto> None], g')"
    by (rule explore_nothing[OF R(11)]) (use blocked in blast)
  have loop: "bfs_loop ?w ?h ?e [?s] [?s \<mapsto> None] g' = Inr ([?s \<mapsto> None], g')"
    using assms(2) ex by simp
  have rec: "reconstruct [?s \<mapsto> None] (Some ?e) [] = Some [?e]"
    using assms(2) by (simp add: reconstruct_Some reconstruct_None dict_get_def)
  have mp: "mark_path ?s ?e [?e] g' = Inr g'"
    by (cases ?e) simp
  have sol2: "solve_sequential m1 = Some (Inr ([?e], m1))"
    using loop rec mp by (simp add: solve_sequential_def m1)
  have len: "length [?e] = length p1 \<longleftrightarrow> vis ?e = None"
  proof (cases "vis ?e = None")
    case True
    with R(7) show ?thesis by (simp add: p1)
  next
    case False
    then obtain v where v: "vis ?e = Some v" by auto
    with bfs_treeD(3)[OF R(2), of ?e] assms(2) obtain c where "vis ?e = Some (Some c)"
      by (cases v) auto
    from bfs_treeD(4)[OF R(2) this] have "l ?e = Suc (l c)" by simp
    with R(8)[OF False] False show ?thesis by (simp add: p1)
  qed
  have loop': "bfs_loop (width m1) (height m1) (end_pos m1) [start_pos m1]
      [start_pos m1 \<mapsto> None] (maze m1) = Inr ([start_pos m1 \<mapsto> None], maze m1)"
    using loop by (simp add: m1)
  show ?thesis
    by (rule exI[of _ vis], rule exI[of _ g1], rule exI[of _ "[?e]"])
      (intro conjI R(1) loop' sol2 len)
qed

theorem solve_sequential_twice_witness:
  "wf_maze maze3 \<and> start_pos maze3 \<noteq> end_pos maze3 \<and>
   solve_sequential maze3 = Some (Inr (path3, maze3_solved)) \<and>
   (\<exists>vis1 g1 p2.
      bfs_loop (width maze3) (height maze3) (end_pos maze3) [start_pos maze3]
        [start_pos maze3 \<mapsto> None] (maze maze3) = Inr (vis1, g1) \<and>
      bfs_loop (width maze3_solved) (height maze3_solved) (end_pos maze3_solved)
        [start_pos maze3_solved] [start_pos maze3_solved \<mapsto> None] (maze maze3_solved)
          = Inr ([start_pos maze3_solved \<mapsto> None], maze maze3_solved) \<and>
      solve_sequential maze3_solved = Some (Inr (p2, maze3_solved)) \<and>
      (length p2 = length path3 \<longleftrightarrow> vis1 (end_pos maze3) = None))"
proof -
  have h1: "wf_maze maze3" by (simp add: maze3_def grid_eval)
  have h2: "start_pos maze3 \<noteq> end_pos maze3" by (simp add: maze3_def)
  note t = solve_sequential_twice[OF h1 h2 solve_maze3]
  show ?thesis by (rule conjI[OF h1 conjI[OF h2 conjI[OF solve_maze3 t]]])
qed

subsection \<open>C5: no path\<close>

text \<open>
  C5 says that \<open>solve_sequential\<close> returns an empty sequence when the exit cannot be
  reached. The reconstruction loop starts from the exit whether the search reached it
  or not, so the call returns the one-element list holding the exit: on a freshly
  constructed 3 by 3 grid (all walls, entrance \<open>(0, 0)\<close>, exit \<open>(2, 2)\<close>) the result is
  \<open>[(2, 2)]\<close>. No cell is marked.
\<close>

theorem solve_unreachable_returns_exit:
  "solve_sequential (Maze_init 3 3) = Some (Inr ([(2, 2)], Maze_init 3 3))"
  by (simp add: Maze_init_def solve_eval numeral_3_eq_3)

subsection \<open>C6: the border\<close>

text \<open>
  C6 says that after \<open>generate_maze\<close> every border cell is a wall except the entrance
  and the exit, which are passages, and that \<open>solve_sequential\<close> keeps this. The
  solver marks the exit when it discovers it: on the generated 3 by 3 maze the exit
  \<open>(2, 1)\<close>, a border cell, is a passage before the call and \<open>Visited\<close> after it.
\<close>

theorem solve_marks_border_exit:
  "generate_maze (const_rng 0) (Maze_init 3 3) = Inr maze3 \<and>
   solve_sequential maze3 = Some (Inr (path3, maze3_solved)) \<and>
   end_pos maze3 = (2, 1) \<and> on_border 3 3 (2, 1) \<and>
   cell (maze maze3) (2, 1) = Passage \<and>
   cell (maze maze3_solved) (2, 1) = Visited"
  using generate_maze3 solve_maze3
  by (simp add: maze3_def maze3_solved_def on_border_def cell_def)

text \<open>
  C6 as amended: for \<open>width, height \<ge> 3\<close> and every random source, \<open>generate_maze\<close>
  returns a maze with entrance \<open>(0, 1)\<close> and exit \<open>(height - 1, width - 2)\<close> in which
  every border cell is a wall except these two, which are passages. After
  \<open>solve_sequential\<close> every other border cell is still a wall, the entrance is still
  a passage, and the exit is a passage or \<open>Visited\<close>.
\<close>

theorem generate_solve_border:
  assumes "3 \<le> w" and "3 \<le> h"
  shows "\<exists>m path m'.
           generate_maze rng (Maze_init w h) = Inr m \<and>
           start_pos m = (0, 1) \<and> end_pos m = (h - 1, w - 2) \<and>
           (\<forall>p. in_bounds w h p \<and> on_border w h p \<longrightarrow>
              cell (maze m) p = (if p = (0, 1) \<or> p = (h - 1, w - 2) then Passage else Wall)) \<and>
           solve_sequential m = Some (Inr (path, m')) \<and>
           (\<forall>p. in_bounds w h p \<and> on_border w h p \<and> p \<noteq> (0, 1) \<and> p \<noteq> (h - 1, w - 2)
              \<longrightarrow> cell (maze m') p = Wall) \<and>
           cell (maze m') (0, 1) = Passage \<and>
           (cell (maze m') (h - 1, w - 2) = Passage \<or> cell (maze m') (h - 1, w - 2) = Visited)"
proof -
  have dims: "width (Maze_init w h) = w" "height (Maze_init w h) = h"
    by (simp_all add: Maze_init_def)
  from generate_maze_ok[OF wf_maze_init, of w h rng] assms obtain m where
    gen: "generate_maze rng (Maze_init w h) = Inr m"
    and m: "width m = w" "height m = h" "start_pos m = (0, 1)" "end_pos m = (h - 1, w - 2)"
    and wf: "wf_maze m"
    and border: "\<forall>p. in_bounds w h p \<and> on_border w h p \<longrightarrow>
              cell (maze m) p = (if p = (0, 1) \<or> p = (h - 1, w - 2) then Passage else Wall)"
    unfolding dims by blast
  from solve_sequential_run[OF wf] obtain l vis g1 cs g' where
    run: "solve_run m l vis g1 cs g'" by blast
  note R = solve_runD[OF run]
  note cells = solve_run_final_cell[OF run, unfolded m]
  note key = solve_run_key[OF run, unfolded m]
  define m' where "m' = m\<lparr>maze := g'\<rparr>"
  have sel: "maze m' = g'" by (simp add: m'_def)
  have bs: "in_bounds w h (0, 1)" "on_border w h (0, 1)"
    and be: "in_bounds w h (h - 1, w - 2)" "on_border w h (h - 1, w - 2)"
    using assms by (simp_all add: in_bounds_def on_border_def)
  have se: "(0, 1) \<noteq> (h - 1, w - 2)" using assms by simp
  have walls: "cell g' p = Wall"
    if p: "in_bounds w h p \<and> on_border w h p \<and> p \<noteq> (0, 1) \<and> p \<noteq> (h - 1, w - 2)" for p
  proof -
    from border[rule_format, of p] p have pw: "cell (maze m) p = Wall" by simp
    have nv: "vis p = None"
    proof (rule ccontr)
      assume "vis p \<noteq> None"
      from key[OF this] p pw show False by simp
    qed
    with R(9)[of p] p m have "p \<notin> set cs" by auto
    with cells[of p] p nv pw show ?thesis by simp
  qed
  have entrance: "cell g' (0, 1) = Passage"
    using cells[OF bs(1)] border[rule_format, of "(0, 1)"] bs by simp
  have exit: "cell g' (h - 1, w - 2) = Passage \<or> cell g' (h - 1, w - 2) = Visited"
    using cells[OF be(1)] border[rule_format, of "(h - 1, w - 2)"] be by simp
  show ?thesis
  proof (rule exI[of _ m], rule exI[of _ "rev cs"], rule exI[of _ m'], intro conjI)
    show "solve_sequential m = Some (Inr (rev cs, m'))"
      using R(13) by (simp add: m'_def)
    show "\<forall>p. in_bounds w h p \<and> on_border w h p \<and> p \<noteq> (0, 1) \<and> p \<noteq> (h - 1, w - 2)
              \<longrightarrow> cell (maze m') p = Wall"
      unfolding sel using walls by blast
    show "cell (maze m') (0, 1) = Passage" unfolding sel by (rule entrance)
    show "cell (maze m') (h - 1, w - 2) = Passage \<or> cell (maze m') (h - 1, w - 2) = Visited"
      unfolding sel by (rule exit)
  qed (use gen m border in simp_all)
qed

theorem generate_solve_border_witness:
  "(3::int) \<le> 5 \<and> (3::int) \<le> 3 \<and>
   (\<exists>m path m'.
           generate_maze (const_rng 0) (Maze_init 5 3) = Inr m \<and>
           start_pos m = (0, 1) \<and> end_pos m = (3 - 1, 5 - 2) \<and>
           (\<forall>p. in_bounds 5 3 p \<and> on_border 5 3 p \<longrightarrow>
              cell (maze m) p = (if p = (0, 1) \<or> p = (3 - 1, 5 - 2) then Passage else Wall)) \<and>
           solve_sequential m = Some (Inr (path, m')) \<and>
           (\<forall>p. in_bounds 5 3 p \<and> on_border 5 3 p \<and> p \<noteq> (0, 1) \<and> p \<noteq> (3 - 1, 5 - 2)
              \<longrightarrow> cell (maze m') p = Wall) \<and>
           cell (maze m') (0, 1) = Passage \<and>
           (cell (maze m') (3 - 1, 5 - 2) = Passage \<or> cell (maze m') (3 - 1, 5 - 2) = Visited))"
proof -
  have h1: "(3::int) \<le> 5" and h2: "(3::int) \<le> 3" by simp_all
  show ?thesis
    by (rule conjI[OF h1 conjI[OF h2 generate_solve_border[OF h1 h2]]])
qed

subsection \<open>C7: which cells are marked\<close>

text \<open>
  C7 says that the entrance and the exit never get a mark and that exactly the
  dequeued cells end up \<open>Visited\<close>. The code marks a cell when it is discovered, the
  exit included: on \<open>open23\<close> the exit \<open>(1, 0)\<close> ends \<open>Visited\<close>, and so does
  \<open>(0, 2)\<close>, which is still in the queue when the search stops.
\<close>

theorem solve_marks_exit:
  "solve_sequential open23 = Some (Inr ([(0, 0), (1, 0)], open23_solved)) \<and>
   end_pos open23 = (1, 0) \<and>
   cell (maze open23_solved) (1, 0) = Visited \<and>
   cell (maze open23_solved) (0, 2) = Visited"
  using solve_open23 by (simp add: open23_def open23_solved_def cell_def)

text \<open>
  C7 as amended, for every well-formed grid, with \<open>vis\<close> the dictionary the search
  returns: every key of \<open>vis\<close> other than the entrance was a passage inside the grid;
  every position of the returned path but the exit is a key; and in the final grid a
  cell is \<open>OnPath\<close> if it is on the path and is neither entrance nor exit, else
  \<open>Visited\<close> if it is a key of \<open>vis\<close> other than the entrance (the exit, once
  discovered, and the cells left in the queue included), else unchanged. The entrance
  is never marked.
\<close>

theorem solve_sequential_marks:
  assumes "wf_maze m"
  shows "\<exists>vis g1 path m'.
           bfs_loop (width m) (height m) (end_pos m) [start_pos m] [start_pos m \<mapsto> None]
             (maze m) = Inr (vis, g1) \<and>
           solve_sequential m = Some (Inr (path, m')) \<and>
           (\<forall>q. vis q \<noteq> None \<and> q \<noteq> start_pos m \<longrightarrow>
              in_bounds (width m) (height m) q \<and> cell (maze m) q = Passage) \<and>
           (\<forall>q. q \<in> set path \<and> q \<noteq> end_pos m \<longrightarrow> vis q \<noteq> None) \<and>
           (\<forall>q. in_bounds (width m) (height m) q \<longrightarrow>
              cell (maze m') q =
                (if q \<in> set path \<and> q \<noteq> start_pos m \<and> q \<noteq> end_pos m then OnPath
                 else if vis q \<noteq> None \<and> q \<noteq> start_pos m then Visited
                 else cell (maze m) q))"
proof -
  from solve_sequential_run[OF assms(1)] obtain l vis g1 cs g' where
    run: "solve_run m l vis g1 cs g'" by blast
  note R = solve_runD[OF run]
  have a: "in_bounds (width m) (height m) q \<and> cell (maze m) q = Passage"
    if "vis q \<noteq> None \<and> q \<noteq> start_pos m" for q
    using bfs_tree_visited_passable[OF R(2), of q] that by (simp add: passable_def)
  have b: "vis q \<noteq> None" if "q \<in> set (rev cs) \<and> q \<noteq> end_pos m" for q
    using R(9)[of q] that by simp
  have c: "cell g' q =
                (if q \<in> set (rev cs) \<and> q \<noteq> start_pos m \<and> q \<noteq> end_pos m then OnPath
                 else if vis q \<noteq> None \<and> q \<noteq> start_pos m then Visited
                 else cell (maze m) q)"
    if "in_bounds (width m) (height m) q" for q
    using R(12)[OF that] bfs_marksD(2)[OF R(3) that]
    by (cases "q = start_pos m") auto
  from R(1) R(13) a b c show ?thesis
    by (intro exI[of _ vis] exI[of _ g1] exI[of _ "rev cs"] exI[of _ "m\<lparr>maze := g'\<rparr>"])
      simp
qed

theorem solve_sequential_marks_witness:
  "wf_maze open23 \<and>
   (\<exists>vis g1 path m'.
           bfs_loop (width open23) (height open23) (end_pos open23) [start_pos open23]
             [start_pos open23 \<mapsto> None] (maze open23) = Inr (vis, g1) \<and>
           solve_sequential open23 = Some (Inr (path, m')) \<and>
           (\<forall>q. vis q \<noteq> None \<and> q \<noteq> start_pos open23 \<longrightarrow>
              in_bounds (width open23) (height open23) q \<and> cell (maze open23) q = Passage) \<and>
           (\<forall>q. q \<in> set path \<and> q \<noteq> end_pos open23 \<longrightarrow> vis q \<noteq> None) \<and>
           (\<forall>q. in_bounds (width open23) (height open23) q \<longrightarrow>
              cell (maze m') q =
                (if q \<in> set path \<and> q \<noteq> start_pos open23 \<and> q \<noteq> end_pos open23 then OnPath
                 else if vis q \<noteq> None \<and> q \<noteq> start_pos open23 then Visited
                 else cell (maze open23) q)))"
proof -
  have h: "wf_maze open23" by (simp add: open23_def grid_eval)
  from h solve_sequential_marks[OF h] show ?thesis by (rule conjI)
qed

subsection \<open>C8: the solver changes annotations only\<close>

text \<open>
  C8: on every (well-formed) grid \<open>solve_sequential\<close> returns, leaves width, height,
  entrance and exit as they were, keeps every wall a wall, turns a passage into nothing
  but \<open>Visited\<close> or \<open>OnPath\<close>, and makes no cell a wall or a passage that was not one.
\<close>

theorem solve_sequential_frame:
  assumes "wf_maze m"
  shows "\<exists>path m'. solve_sequential m = Some (Inr (path, m')) \<and>
           width m' = width m \<and> height m' = height m \<and>
           start_pos m' = start_pos m \<and> end_pos m' = end_pos m \<and> wf_maze m' \<and>
           (\<forall>p. in_bounds (width m) (height m) p \<longrightarrow>
              (cell (maze m) p = Wall \<longrightarrow> cell (maze m') p = Wall) \<and>
              (cell (maze m) p = Passage \<longrightarrow>
                 cell (maze m') p = Passage \<or> cell (maze m') p = Visited
                   \<or> cell (maze m') p = OnPath) \<and>
              (cell (maze m') p = Wall \<longrightarrow> cell (maze m) p = Wall) \<and>
              (cell (maze m') p = Passage \<longrightarrow> cell (maze m) p = Passage))"
proof -
  from solve_sequential_run[OF assms] obtain l vis g1 cs g' where
    run: "solve_run m l vis g1 cs g'" by blast
  note tree = solve_runD(2)[OF run] and marks = solve_runD(3)[OF run]
    and onpath = solve_runD(9)[OF run] and wf' = solve_runD(11)[OF run]
    and cells = solve_runD(12)[OF run] and sol = solve_runD(13)[OF run]
  define m' where "m' = m\<lparr>maze := g'\<rparr>"
  have sel: "maze m' = g'" "width m' = width m" "height m' = height m"
    "start_pos m' = start_pos m" "end_pos m' = end_pos m"
    by (simp_all add: m'_def)
  have frame0: "(cell (maze m) p = Wall \<longrightarrow> cell g' p = Wall) \<and>
              (cell (maze m) p = Passage \<longrightarrow>
                 cell g' p = Passage \<or> cell g' p = Visited \<or> cell g' p = OnPath) \<and>
              (cell g' p = Wall \<longrightarrow> cell (maze m) p = Wall) \<and>
              (cell g' p = Passage \<longrightarrow> cell (maze m) p = Passage)"
    if p: "in_bounds (width m) (height m) p" for p
  proof (cases "vis p \<noteq> None \<and> p \<noteq> start_pos m")
    case True
    with bfs_tree_visited_passable[OF tree, of p]
    have "cell (maze m) p = Passage" by (simp add: passable_def)
    with cells[OF p] bfs_marksD(2)[OF marks p] True show ?thesis by auto
  next
    case False
    with onpath[of p] have "\<not> (p \<in> set cs \<and> p \<noteq> start_pos m \<and> p \<noteq> end_pos m)"
      by auto
    with cells[OF p] bfs_marksD(2)[OF marks p] False show ?thesis by auto
  qed
  have frame: "(cell (maze m) p = Wall \<longrightarrow> cell (maze m') p = Wall) \<and>
              (cell (maze m) p = Passage \<longrightarrow>
                 cell (maze m') p = Passage \<or> cell (maze m') p = Visited
                   \<or> cell (maze m') p = OnPath) \<and>
              (cell (maze m') p = Wall \<longrightarrow> cell (maze m) p = Wall) \<and>
              (cell (maze m') p = Passage \<longrightarrow> cell (maze m) p = Passage)"
    if p: "in_bounds (width m) (height m) p" for p
    using frame0[OF p] unfolding sel(1) .
  show ?thesis
  proof (intro exI[of _ "rev cs"] exI[of _ m'] conjI allI impI)
    show "solve_sequential m = Some (Inr (rev cs, m'))"
      using sol by (simp add: m'_def)
    show "wf_maze m'"
      using wf' by (simp add: wf_maze_def sel)
  qed (use sel frame in blast)+
qed

theorem solve_sequential_frame_witness:
  "wf_maze open23 \<and>
   (\<exists>path m'. solve_sequential open23 = Some (Inr (path, m')) \<and>
           width m' = width open23 \<and> height m' = height open23 \<and>
           start_pos m' = start_pos open23 \<and> end_pos m' = end_pos open23 \<and> wf_maze m' \<and>
           (\<forall>p. in_bounds (width open23) (height open23) p \<longrightarrow>
              (cell (maze open23) p = Wall \<longrightarrow> cell (maze m') p = Wall) \<and>
              (cell (maze open23) p = Passage \<longrightarrow>
                 cell (maze m') p = Passage \<or> cell (maze m') p = Visited
                   \<or> cell (maze m') p = OnPath) \<and>
              (cell (maze m') p = Wall \<longrightarrow> cell (maze open23) p = Wall) \<and>
              (cell (maze m') p = Passage \<longrightarrow> cell (maze open23) p = Passage)))"
proof -
  have h: "wf_maze open23" by (simp add: open23_def grid_eval)
  from h solve_sequential_frame[OF h] show ?thesis by (rule conjI)
qed

subsection \<open>C9: the carving terminates\<close>

text \<open>
  C9: for \<open>width, height \<ge> 3\<close> and every random source, \<open>generate_maze\<close> returns
  (the loop \<open>carve_loop\<close> is a total function: each iteration lowers twice the number
  of walls plus the length of the stack, which is its termination proof), after at
  most \<open>2 * width * height + 1\<close> iterations of \<open>while stack\<close>; and no position is
  pushed onto the stack twice, every pushed position being an interior cell of the
  coarse lattice.
\<close>

theorem generate_maze_terminates:
  assumes "3 \<le> w" and "3 \<le> h"
  shows "(\<exists>m. generate_maze rng (Maze_init w h) = Inr m) \<and>
         generate_iterations rng (Maze_init w h) \<le> 2 * (nat h * nat w) + 1 \<and>
         distinct (generate_pushes rng (Maze_init w h)) \<and>
         (\<forall>p \<in> set (generate_pushes rng (Maze_init w h)). interior w h p \<and> lattice_cell p)"
proof -
  have dims: "width (Maze_init w h) = w" "height (Maze_init w h) = h"
    by (simp_all add: Maze_init_def)
  from generate_maze_run[OF wf_maze_init, of w h rng] assms obtain g0 where
    g0: "reset_grid (maze (Maze_init w h)) (py_range h) (py_range w) = Inr g0"
    "wf_grid w h g0"
    "grid_set g0 1 1 Passage = Inr (put g0 (1, 1) Passage)"
    "carve_inv w h (0, lattice_directions, put g0 (1, 1) Passage, [(1, 1)])"
    and gen: "\<exists>m. generate_maze rng (Maze_init w h) = Inr m"
    unfolding dims by blast
  let ?s0 = "(0, lattice_directions, put g0 (1, 1) Passage, [(1, 1)])"
  have pushes: "generate_pushes rng (Maze_init w h) = (1, 1) # carve_pushes rng w h ?s0"
    using g0(1,3) by (simp add: generate_pushes_def dims)
  have iters: "generate_iterations rng (Maze_init w h) = carve_iterations rng w h ?s0"
    using g0(1,3) by (simp add: generate_iterations_def dims)
  from carve_pushes_ok[OF g0(4), of rng]
  have d: "distinct (carve_pushes rng w h ?s0)"
    and a: "\<forall>p \<in> set (carve_pushes rng w h ?s0).
              interior w h p \<and> lattice_cell p \<and> cell (put g0 (1, 1) Passage) p = Wall"
    by simp_all
  have i11: "interior w h (1, 1)" using assms by (simp add: interior_def)
  have "cell (put g0 (1, 1) Passage) (1, 1) = Passage"
    using cell_put[OF g0(2) interior_in_bounds[OF i11] interior_in_bounds[OF i11], of Passage]
    by simp
  with a have "(1, 1) \<notin> set (carve_pushes rng w h ?s0)" by auto
  with d a i11 have "distinct (generate_pushes rng (Maze_init w h))"
    "\<forall>p \<in> set (generate_pushes rng (Maze_init w h)). interior w h p \<and> lattice_cell p"
    unfolding pushes by (simp_all add: lattice_cell_def)
  moreover have "generate_iterations rng (Maze_init w h) \<le> 2 * (nat h * nat w) + 1"
    unfolding iters
    using carve_iterations_le[of rng w h 0 lattice_directions "put g0 (1, 1) Passage" "[(1, 1)]"]
      card_cells_with_le[OF wf_grid_put[OF g0(2)], of Wall "(1, 1)" Passage]
    by simp
  ultimately show ?thesis using gen by blast
qed

theorem generate_maze_terminates_witness:
  "(3::int) \<le> 5 \<and> (3::int) \<le> 3 \<and>
   (\<exists>m. generate_maze (const_rng 0) (Maze_init 5 3) = Inr m) \<and>
   generate_iterations (const_rng 0) (Maze_init 5 3) \<le> 2 * (nat 3 * nat 5) + 1 \<and>
   distinct (generate_pushes (const_rng 0) (Maze_init 5 3))"
proof -
  have h1: "(3::int) \<le> 5" and h2: "(3::int) \<le> 3" by simp_all
  note t = generate_maze_terminates[OF h1 h2, of "const_rng 0"]
  from t have a: "\<exists>m. generate_maze (const_rng 0) (Maze_init 5 3) = Inr m"
    by (rule conjunct1)
  from t have b: "generate_iterations (const_rng 0) (Maze_init 5 3) \<le> 2 * (nat 3 * nat 5) + 1"
    by (rule conjunct2[THEN conjunct1])
  from t have c: "distinct (generate_pushes (const_rng 0) (Maze_init 5 3))"
    by (rule conjunct2[THEN conjunct2, THEN conjunct1])
  show ?thesis by (rule conjI[OF h1 conjI[OF h2 conjI[OF a conjI[OF b c]]]])
qed

subsection \<open>C10: every grid access of the solver is in bounds\<close>

text \<open>
  C10: on a well-formed grid whose entrance and exit lie inside the bounds,
  \<open>solve_sequential\<close> never raises \<open>IndexError\<close>: every key of the dictionary of the
  search is inside the bounds (a neighbour is read and written only after the bounds
  test), and every position of the path is the exit or such a key.
\<close>

theorem solve_sequential_in_bounds:
  assumes "wf_maze m"
    and "in_bounds (width m) (height m) (start_pos m)"
    and "in_bounds (width m) (height m) (end_pos m)"
  shows "solve_sequential m \<noteq> Some (Inl IndexError) \<and>
         (\<exists>vis g1 path m'.
            bfs_loop (width m) (height m) (end_pos m) [start_pos m] [start_pos m \<mapsto> None]
              (maze m) = Inr (vis, g1) \<and>
            solve_sequential m = Some (Inr (path, m')) \<and>
            (\<forall>q. vis q \<noteq> None \<longrightarrow> in_bounds (width m) (height m) q) \<and>
            (\<forall>q \<in> set path. q = end_pos m \<or> vis q \<noteq> None) \<and>
            (\<forall>q \<in> set path. in_bounds (width m) (height m) q))"
proof -
  from solve_sequential_run[OF assms(1)] obtain l vis g1 cs g' where
    run: "solve_run m l vis g1 cs g'" by blast
  note R = solve_runD[OF run]
  have vb: "in_bounds (width m) (height m) q" if "vis q \<noteq> None" for q
  proof (cases "q = start_pos m")
    case True
    with assms(2) show ?thesis by simp
  next
    case False
    from bfs_tree_visited_passable[OF R(2) that False] show ?thesis
      by (simp add: passable_def)
  qed
  have pv: "q = end_pos m \<or> vis q \<noteq> None" if "q \<in> set (rev cs)" for q
    using R(9)[of q] that by auto
  have pb: "in_bounds (width m) (height m) q" if "q \<in> set (rev cs)" for q
    using pv[OF that] vb[of q] assms(3) by auto
  from R(1) R(13) vb pv pb show ?thesis
    by (intro conjI exI[of _ vis] exI[of _ g1] exI[of _ "rev cs"] exI[of _ "m\<lparr>maze := g'\<rparr>"])
      simp_all
qed

theorem solve_sequential_in_bounds_witness:
  "wf_maze open23 \<and>
   in_bounds (width open23) (height open23) (start_pos open23) \<and>
   in_bounds (width open23) (height open23) (end_pos open23) \<and>
   solve_sequential open23 \<noteq> Some (Inl IndexError)"
proof -
  have h1: "wf_maze open23" by (simp add: open23_def grid_eval)
  have h2: "in_bounds (width open23) (height open23) (start_pos open23)"
    by (simp add: open23_def grid_eval)
  have h3: "in_bounds (width open23) (height open23) (end_pos open23)"
    by (simp add: open23_def grid_eval)
  from solve_sequential_in_bounds[OF h1 h2 h3]
  have "solve_sequential open23 \<noteq> Some (Inl IndexError)" by (rule conjunct1)
  with h1 h2 h3 show ?thesis by (intro conjI)
qed

end
